theory Spec2Isabelle
  imports Main
begin

section \<open>Path strings (posixpath)\<close>

text \<open>
  The script builds every path by string formatting and by the functions of
  \<^verbatim>\<open>os.path\<close>. Paths are modelled as \<^typ>\<open>string\<close> and the library functions
  are written out as the POSIX implementation computes them.
\<close>

definition startswith :: "string \<Rightarrow> string \<Rightarrow> bool" where
  "startswith s p = (take (length p) s = p)"

definition endswith :: "string \<Rightarrow> string \<Rightarrow> bool" where
  "endswith s p = (length p \<le> length s \<and> drop (length s - length p) s = p)"

text \<open>\<^verbatim>\<open>os.path.join(a, b)\<close>: an absolute second argument discards the first.\<close>

definition path_join :: "string \<Rightarrow> string \<Rightarrow> string" where
  "path_join a b =
     (if startswith b ''/'' then b
      else if a = [] \<or> endswith a ''/'' then a @ b
      else a @ ''/'' @ b)"

text \<open>\<^verbatim>\<open>os.path.basename(p)\<close>: what follows the last slash.\<close>

definition basename :: "string \<Rightarrow> string" where
  "basename p = rev (takeWhile (\<lambda>c. c \<noteq> CHR ''/'') (rev p))"

text \<open>
  \<^verbatim>\<open>os.path.dirname(p)\<close>: what precedes the last slash, with trailing slashes
  stripped unless the head consists of slashes only.
\<close>

definition path_dirname :: "string \<Rightarrow> string" where
  "path_dirname p =
     (let head = rev (dropWhile (\<lambda>c. c \<noteq> CHR ''/'') (rev p))
      in if head \<noteq> [] \<and> \<not> list_all (\<lambda>c. c = CHR ''/'') head
         then rev (dropWhile (\<lambda>c. c = CHR ''/'') (rev head))
         else head)"

text \<open>\<^verbatim>\<open>s.rsplit('.', 1)[0]\<close>: the part before the last dot, or all of \<open>s\<close>.\<close>

definition rsplit_dot :: "string \<Rightarrow> string" where
  "rsplit_dot s =
     (if CHR ''.'' \<in> set s then rev (tl (dropWhile (\<lambda>c. c \<noteq> CHR ''.'') (rev s)))
      else s)"

text \<open>\<^verbatim>\<open>s.split(sep)\<close> for a one-character separator, and \<^verbatim>\<open>sep.join(xs)\<close>.\<close>

fun split_on :: "char \<Rightarrow> string \<Rightarrow> string list" where
  "split_on c [] = [[]]"
| "split_on c (x # xs) =
     (if x = c then [] # split_on c xs
      else (case split_on c xs of
              [] \<Rightarrow> [[x]]
            | w # ws \<Rightarrow> (x # w) # ws))"

fun join_with :: "string \<Rightarrow> string list \<Rightarrow> string" where
  "join_with sep [] = []"
| "join_with sep [x] = x"
| "join_with sep (x # y # ys) = x @ sep @ join_with sep (y # ys)"

text \<open>
  \<^verbatim>\<open>os.path.normpath\<close>: empty and \<^verbatim>\<open>.\<close> components are dropped, \<^verbatim>\<open>..\<close> cancels
  the component before it, and exactly two leading slashes are kept as two.
\<close>

definition norm_step :: "nat \<Rightarrow> string \<Rightarrow> string list \<Rightarrow> string list" where
  "norm_step initial_slashes part new_comps =
     (if part = [] \<or> part = ''.'' then new_comps
      else if part \<noteq> ''..'' \<or> (initial_slashes = 0 \<and> new_comps = [])
              \<or> (new_comps \<noteq> [] \<and> last new_comps = ''..'')
           then new_comps @ [part]
      else if new_comps \<noteq> [] then butlast new_comps
      else new_comps)"

definition normpath :: "string \<Rightarrow> string" where
  "normpath p =
     (if p = [] then ''.''
      else
        let initial_slashes =
              (if startswith p ''/''
               then (if startswith p ''//'' \<and> \<not> startswith p ''///'' then 2 else 1)
               else (0::nat));
            comps = fold (norm_step initial_slashes) (split_on CHR ''/'' p) [];
            path = replicate initial_slashes CHR ''/'' @ join_with ''/'' comps
        in if path = [] then ''.'' else path)"

text \<open>\<^verbatim>\<open>os.path.abspath\<close>, with the working directory as an argument.\<close>

definition abspath :: "string \<Rightarrow> string \<Rightarrow> string" where
  "abspath cwd p = normpath (if startswith p ''/'' then p else path_join cwd p)"

fun common_prefix_len :: "'a list \<Rightarrow> 'a list \<Rightarrow> nat" where
  "common_prefix_len (x # xs) (y # ys) =
     (if x = y then Suc (common_prefix_len xs ys) else 0)"
| "common_prefix_len xs ys = 0"

text \<open>
  \<^verbatim>\<open>os.path.relpath(path)\<close> with the default start, the working directory. The
  library raises ValueError on an empty path; the scanner only passes joined paths,
  which are never empty.
\<close>

definition relpath :: "string \<Rightarrow> string \<Rightarrow> string" where
  "relpath cwd path =
     (let start_list = filter (\<lambda>x. x \<noteq> []) (split_on CHR ''/'' (abspath cwd ''.''));
          path_list = filter (\<lambda>x. x \<noteq> []) (split_on CHR ''/'' (abspath cwd path));
          i = common_prefix_len start_list path_list;
          rel_list = replicate (length start_list - i) ''..'' @ drop i path_list
      in if rel_list = [] then ''.''
         else foldl path_join (hd rel_list) (tl rel_list))"

section \<open>The source tree and the directory walk\<close>

text \<open>
  The tree that the scanner reads: a file with its bytes, or a directory with its
  entries in the order the operating system lists them. The scanner only reads
  this tree; what it deletes lies under the build base and the artifact root,
  which are held in a separate store below (the working directory is taken to lie
  outside both).
\<close>

datatype node = File string | Dir "(string \<times> node) list"

fun is_dir :: "node \<Rightarrow> bool" where
  "is_dir (Dir es) = True"
| "is_dir (File c) = False"

fun entries :: "node \<Rightarrow> (string \<times> node) list" where
  "entries (Dir es) = es"
| "entries (File c) = []"

definition subdirs :: "(string \<times> node) list \<Rightarrow> (string \<times> node) list" where
  "subdirs es = filter (\<lambda>e. is_dir (snd e)) es"

definition nondirs :: "(string \<times> node) list \<Rightarrow> string list" where
  "nondirs es = map fst (filter (\<lambda>e. \<not> is_dir (snd e)) es)"

text \<open>
  \<^verbatim>\<open>os.walk(top)\<close>, top-down: the triple for the top first, then the walk of every
  subdirectory in listing order. Each directory name is kept together with the
  directory it names, which stands for what the file system holds at
  \<^verbatim>\<open>os.path.join(root, dirname)\<close>. A top that is no directory yields nothing.
\<close>

fun walk :: "string \<Rightarrow> node \<Rightarrow> (string \<times> (string \<times> node) list \<times> string list) list"
  and walk_all :: "string \<Rightarrow> (string \<times> node) list \<Rightarrow> (string \<times> (string \<times> node) list \<times> string list) list"
where
  "walk tp (File c) = []"
| "walk tp (Dir es) = (tp, subdirs es, nondirs es) # walk_all tp es"
| "walk_all tp [] = []"
| "walk_all tp ((n, c) # es) = walk (path_join tp n) c @ walk_all tp es"

text \<open>
  \<^verbatim>\<open>glob.glob(f'{dirpath}/*.ipynb')\<close>: the entries of the directory whose name ends
  in \<^verbatim>\<open>.ipynb\<close> and does not start with a dot, each joined to \<open>dirpath\<close>, in listing
  order. (\<open>dirpath\<close> is taken to hold no glob metacharacter.)
\<close>

definition fnmatch_ipynb :: "string \<Rightarrow> bool" where
  "fnmatch_ipynb n = (endswith n ''.ipynb'' \<and> \<not> startswith n ''.'')"

definition glob_ipynb :: "string \<Rightarrow> node \<Rightarrow> string list" where
  "glob_ipynb dirpath d =
     map (path_join dirpath) (filter fnmatch_ipynb (map fst (entries d)))"

section \<open>The build area\<close>

text \<open>
  What lies under the build base and the artifact root, and the files the builder
  reads, is a store from path strings to objects. Paths are compared as strings:
  the script forms every path it writes by \<^verbatim>\<open>os.path.join\<close> from a directory and
  a name, so no two spellings of one written path arise.
\<close>

datatype fsobj = FileObj string | DirObj

type_synonym fstore = "string \<Rightarrow> fsobj option"

datatype error =
    NotImplementedError string
  | FileExistsError string
  | FileNotFoundError string
  | NotADirectoryError string
  | IsADirectoryError string
  | BuildError string
  | BdbQuit

definition path_exists :: "fstore \<Rightarrow> string \<Rightarrow> bool" where
  "path_exists s p = (s p \<noteq> None)"

definition is_under :: "string \<Rightarrow> string \<Rightarrow> bool" where
  "is_under d p = startswith p (d @ ''/'')"

text \<open>
  \<^verbatim>\<open>shutil.rmtree(p)\<close>: removes the directory and all that lies under it; a path
  that is a regular file raises NotADirectoryError.
\<close>

definition rmtree :: "string \<Rightarrow> fstore \<Rightarrow> error + fstore" where
  "rmtree p s =
     (case s p of
        None \<Rightarrow> Inl (FileNotFoundError p)
      | Some (FileObj c) \<Rightarrow> Inl (NotADirectoryError p)
      | Some DirObj \<Rightarrow> Inr (\<lambda>q. if q = p \<or> is_under p q then None else s q))"

section \<open>The data model\<close>

text \<open>
  The four named tuples. The field \<^verbatim>\<open>name\<close> occurs in three of them and in
  \<^verbatim>\<open>BuildJob\<close> (where it holds the category), so the selectors carry a prefix.
\<close>

datatype Notebook =
  Notebook (nb_name: string) (filename: string) (filepath: string)

datatype Category =
  Category (cat_name: string) (notebooks: "Notebook list") (source_dir: string)
    (build_dir: string) (artifact_dir: string)

datatype Collection =
  Collection (coll_name: string) (categories: "Category list")

datatype BuildJob =
  BuildJob (job_name: Category) (scripts: "string list")

definition BUILD_BASE_DIR :: string where
  "BUILD_BASE_DIR = ''/tmp/nbcollection-ci-build-base-dir''"

definition ARTIFACT_DEST_DIR :: string where
  "ARTIFACT_DEST_DIR = ''/tmp/artifacts''"

section \<open>The scanner: \<^verbatim>\<open>build_categories\<close>\<close>

text \<open>
  \<^verbatim>\<open>build_categories\<close> is a generator. Its run is a state: the store, the
  categories yielded so far, each with the store as it was when the category was
  handed over, and the exception that ended the run, if any. Once an exception is
  raised no later step of the generator does anything.
\<close>

record scan_state =
  store :: fstore
  yielded :: "(Category \<times> fstore) list"
  raised :: "error option"

definition has_entry :: "node \<Rightarrow> string \<Rightarrow> bool" where
  "has_entry d n = (n \<in> set (map fst (entries d)))"

text \<open>
  Lines 131 to 145, the branch for a directory with notebooks: the check for
  \<^verbatim>\<open>requirements.txt\<close>, the removal of a stale build directory and of a stale
  artifact directory (each an \<^verbatim>\<open>if os.path.exists(p): shutil.rmtree(p)\<close>), and the
  \<^verbatim>\<open>yield\<close>. (The temporary file of line 136 is
  created and dropped at once and its name is never used.)
\<close>

definition remove_stale :: "string \<Rightarrow> fstore \<Rightarrow> error + fstore" where
  "remove_stale p s = (if path_exists s p then rmtree p s else Inr s)"

definition yield_category ::
  "string \<Rightarrow> string \<Rightarrow> string \<Rightarrow> node \<Rightarrow> Notebook list \<Rightarrow> scan_state \<Rightarrow> scan_state" where
  "yield_category cwd dirname dirpath d nbs st =
     (let requirements_path = relpath cwd (path_join dirpath ''requirements.txt'') in
      if \<not> has_entry d ''requirements.txt''
      then st\<lparr>raised := Some (NotImplementedError
                (''Category missing Requirements File['' @ requirements_path @ '']''))\<rparr>
      else
        let build_dir = path_join BUILD_BASE_DIR dirname in
        (case remove_stale build_dir (store st) of
           Inl e \<Rightarrow> st\<lparr>raised := Some e\<rparr>
         | Inr s1 \<Rightarrow>
             let artifact_dir = path_join ARTIFACT_DEST_DIR dirname in
             (case remove_stale artifact_dir s1 of
                Inl e \<Rightarrow> st\<lparr>store := s1, raised := Some e\<rparr>
              | Inr s2 \<Rightarrow>
                  let category = Category dirname nbs dirpath build_dir artifact_dir;
                      handed = Pair category s2
                  in st\<lparr>store := s2, yielded := yielded st @ [handed]\<rparr>)))"

text \<open>Lines 124 to 129: the notebooks of one directory, in the order of the glob.\<close>

definition find_notebooks :: "string \<Rightarrow> string \<Rightarrow> node \<Rightarrow> Notebook list" where
  "find_notebooks cwd dirpath d =
     map (\<lambda>fp. Notebook (rsplit_dot (basename fp)) (basename fp) (relpath cwd fp))
       (glob_ipynb dirpath d)"

text \<open>Every directory that a walk lists is a proper part of the walked tree.\<close>

lemma entry_size: "d \<in> set es \<Longrightarrow> size (snd d) < size (Dir es)"
  by (induction es) (auto simp: less_Suc_eq)

lemma walk_subdir_size:
  "w \<in> set (walk tp u) \<Longrightarrow> d \<in> set (fst (snd w)) \<Longrightarrow> size (snd d) < size u"
  "w \<in> set (walk_all tp es) \<Longrightarrow> d \<in> set (fst (snd w)) \<Longrightarrow> size (snd d) < size (Dir es)"
proof (induction tp u and tp es arbitrary: w d and w d rule: walk_walk_all.induct)
  case (2 tp es)
  show ?case
  proof (cases "w = (tp, subdirs es, nondirs es)")
    case True
    with 2 have "d \<in> set es" by (simp add: subdirs_def)
    then show ?thesis by (rule entry_size)
  next
    case False
    with 2 show ?thesis by simp
  qed
next
  case (4 tp n c es)
  from 4(3) have "w \<in> set (walk (path_join tp n) c) \<or> w \<in> set (walk_all tp es)"
    by simp
  then show ?case
  proof
    assume "w \<in> set (walk (path_join tp n) c)"
    from 4(1)[OF this 4(4)] show ?thesis by simp
  next
    assume "w \<in> set (walk_all tp es)"
    from 4(2)[OF this 4(4)] show ?thesis by simp
  qed
qed auto

text \<open>
  Lines 120 to 149. The outer loop runs over every triple of the walk, the inner
  loop over the directory names of the triple; a directory without notebooks is
  scanned by a recursive call whose categories are passed on.
\<close>

function build_categories :: "string \<Rightarrow> string \<Rightarrow> node \<Rightarrow> scan_state \<Rightarrow> scan_state" where
  "build_categories cwd start_path t st =
     foldl (\<lambda>st0 w.
        foldl (\<lambda>st' d.
           if raised st' \<noteq> None then st'
           else
             let dirname = fst d;
                 dirpath = path_join (fst w) dirname;
                 nbs = find_notebooks cwd dirpath (snd d)
             in if nbs \<noteq> [] then yield_category cwd dirname dirpath (snd d) nbs st'
                else build_categories cwd dirpath (snd d) st')
          st0 (fst (snd w)))
       st (walk start_path t)"
  by pat_completeness auto
termination
  by (relation "measure (\<lambda>(cwd, start_path, t, st). size t)")
    (auto dest: walk_subdir_size(1))

declare build_categories.simps [simp del]

text \<open>
  The body of the inner loop (lines 123 to 149) and the inner loop itself, named so
  that the scan can be unfolded one directory at a time.
\<close>

definition scan_child :: "string \<Rightarrow> string \<Rightarrow> scan_state \<Rightarrow> string \<times> node \<Rightarrow> scan_state" where
  "scan_child cwd root st d =
     (if raised st \<noteq> None then st
      else
        let dirname = fst d;
            dirpath = path_join root dirname;
            nbs = find_notebooks cwd dirpath (snd d)
        in if nbs \<noteq> [] then yield_category cwd dirname dirpath (snd d) nbs st
           else build_categories cwd dirpath (snd d) st)"

definition scan_dirs ::
  "string \<Rightarrow> scan_state \<Rightarrow> string \<times> (string \<times> node) list \<times> string list \<Rightarrow> scan_state" where
  "scan_dirs cwd st w = foldl (scan_child cwd (fst w)) st (fst (snd w))"

lemma build_categories_loop [code]:
  "build_categories cwd start_path t st = foldl (scan_dirs cwd) st (walk start_path t)"
  apply (subst build_categories.simps)
  apply (rule foldl_cong) apply simp apply simp
  apply (simp only: scan_dirs_def)
  apply (rule foldl_cong) apply simp apply simp
  apply (simp only: scan_child_def)
  done

section \<open>File operations of the builder\<close>

text \<open>
  The builder reads its sources below the working directory and writes below the
  build base and the artifact root. The environment is the working directory
  and the tree found there; a source path is resolved in that tree as the
  operating system does, by its normalised absolute form.
\<close>

record env =
  getcwd :: string
  cwd_tree :: node

fun lookup_tree :: "node \<Rightarrow> string list \<Rightarrow> node option" where
  "lookup_tree t [] = Some t"
| "lookup_tree (File c) (n # ns) = None"
| "lookup_tree (Dir es) (n # ns) =
     (case map_of es n of None \<Rightarrow> None | Some c \<Rightarrow> lookup_tree c ns)"

definition components :: "string \<Rightarrow> string list" where
  "components p = filter (\<lambda>x. x \<noteq> []) (split_on CHR ''/'' p)"

definition resolve :: "env \<Rightarrow> string \<Rightarrow> node option" where
  "resolve e p =
     (let here = components (abspath (getcwd e) ''.'');
          there = components (abspath (getcwd e) p)
      in if take (length here) there = here
         then lookup_tree (cwd_tree e) (drop (length here) there)
         else None)"

text \<open>
  \<^verbatim>\<open>os.mkdir\<close>, \<^verbatim>\<open>os.makedirs\<close> (with \<^verbatim>\<open>exist_ok=False\<close>), \<^verbatim>\<open>open(p, 'w')\<close> with
  \<^verbatim>\<open>write\<close>, and \<^verbatim>\<open>shutil.copyfile\<close> from a source path into the store. A path
  without a directory part, or whose directory part is the root, has a parent
  that exists. A call that raises returns the exception together with the store as
  the call left it: what was written before the exception stays written.
\<close>

definition check_parent :: "string \<Rightarrow> fstore \<Rightarrow> error option" where
  "check_parent p s =
     (let head = path_dirname p
      in if head = [] \<or> list_all (\<lambda>c. c = CHR ''/'') head then None
         else (case s head of
                 None \<Rightarrow> Some (FileNotFoundError p)
               | Some (FileObj c) \<Rightarrow> Some (NotADirectoryError p)
               | Some DirObj \<Rightarrow> None))"

definition mkdir :: "string \<Rightarrow> fstore \<Rightarrow> error \<times> fstore + fstore" where
  "mkdir p s =
     (if s p \<noteq> None then Inl (FileExistsError p, s)
      else (case check_parent p s of
              Some e \<Rightarrow> Inl (e, s)
            | None \<Rightarrow> Inr (s(p \<mapsto> DirObj))))"

lemma path_dirname_length: "length (path_dirname p) \<le> length p"
proof -
  have a: "length (dropWhile P xs) \<le> length xs" for P and xs :: string
    by (induction xs) auto
  have "length (rev (dropWhile (\<lambda>c. c = CHR ''/'')
          (rev (rev (dropWhile (\<lambda>c. c \<noteq> CHR ''/'') (rev p)))))) \<le> length p"
    using a[of "\<lambda>c. c = CHR ''/''" "dropWhile (\<lambda>c. c \<noteq> CHR ''/'') (rev p)"]
      a[of "\<lambda>c. c \<noteq> CHR ''/''" "rev p"] by simp
  moreover have "length (rev (dropWhile (\<lambda>c. c \<noteq> CHR ''/'') (rev p))) \<le> length p"
    using a[of "\<lambda>c. c \<noteq> CHR ''/''" "rev p"] by simp
  ultimately show ?thesis
    by (simp add: path_dirname_def Let_def)
qed

lemma path_dirname_shorter:
  assumes "basename p \<noteq> []"
  shows "length (path_dirname p) < length p"
proof -
  have a: "length (dropWhile P xs) \<le> length xs" for P and xs :: string
    by (induction xs) auto
  let ?raw = "dropWhile (\<lambda>c. c \<noteq> CHR ''/'') (rev p)"
  have "length (takeWhile (\<lambda>c. c \<noteq> CHR ''/'') (rev p)) + length ?raw = length p"
    by (metis length_append length_rev takeWhile_dropWhile_id)
  moreover from assms have "0 < length (takeWhile (\<lambda>c. c \<noteq> CHR ''/'') (rev p))"
    by (simp add: basename_def)
  ultimately have raw: "length ?raw < length p" by linarith
  have "length (dropWhile (\<lambda>c. c = CHR ''/'') ?raw) \<le> length ?raw"
    by (rule a)
  with raw show ?thesis
    by (simp add: path_dirname_def Let_def)
qed

function makedirs :: "string \<Rightarrow> fstore \<Rightarrow> error \<times> fstore + fstore" where
  "makedirs name s =
     (let head0 = path_dirname name;
          tail0 = basename name;
          head = (if tail0 = [] then path_dirname head0 else head0);
          tail = (if tail0 = [] then basename head0 else tail0)
      in if head \<noteq> [] \<and> tail \<noteq> [] \<and> \<not> path_exists s head
         then (case makedirs head s of
                 Inl (FileExistsError x, s1) \<Rightarrow> (if tail = ''.'' then Inr s1 else mkdir name s1)
               | Inl (e, s1) \<Rightarrow> Inl (e, s1)
               | Inr s1 \<Rightarrow> (if tail = ''.'' then Inr s1 else mkdir name s1))
         else mkdir name s)"
  by pat_completeness auto
termination
proof (relation "measure (\<lambda>(name, s). length name)")
  show "wf (measure (\<lambda>(name, s). length name))" by simp
next
  fix name :: string and s :: fstore and x xa xb xc
  assume x: "x = path_dirname name" and xa: "xa = basename name"
    and xb: "xb = (if xa = [] then path_dirname x else x)"
    and xc: "xc = (if xa = [] then basename x else xa)"
    and c: "xb \<noteq> [] \<and> xc \<noteq> [] \<and> \<not> path_exists s xb"
  have "length xb < length name"
  proof (cases "xa = []")
    case True
    with xc c have "basename x \<noteq> []" by simp
    then have "length (path_dirname x) < length x" by (rule path_dirname_shorter)
    with True xb x show ?thesis
      using path_dirname_length[of name] by simp
  next
    case False
    with xa have "length (path_dirname name) < length name"
      by (simp add: path_dirname_shorter)
    with False xb x show ?thesis by simp
  qed
  then show "((xb, s), (name, s)) \<in> measure (\<lambda>(name, s). length name)" by simp
qed

declare makedirs.simps [simp del]

definition write_file :: "string \<Rightarrow> string \<Rightarrow> fstore \<Rightarrow> error \<times> fstore + fstore" where
  "write_file p content s =
     (if s p = Some DirObj then Inl (IsADirectoryError p, s)
      else (case check_parent p s of
              Some e \<Rightarrow> Inl (e, s)
            | None \<Rightarrow> Inr (s(p \<mapsto> FileObj content))))"

definition copyfile :: "env \<Rightarrow> string \<Rightarrow> string \<Rightarrow> fstore \<Rightarrow> error \<times> fstore + fstore" where
  "copyfile e src dst s =
     (case resolve e src of
        None \<Rightarrow> Inl (FileNotFoundError src, s)
      | Some (Dir es) \<Rightarrow> Inl (IsADirectoryError src, s)
      | Some (File content) \<Rightarrow> write_file dst content s)"

text \<open>
  Sequencing of steps that may raise, and a \<^verbatim>\<open>for\<close> loop of such steps: the first
  exception ends the sequence and is passed on as it is.
\<close>

definition bind_result :: "'e + 'a \<Rightarrow> ('a \<Rightarrow> 'e + 'b) \<Rightarrow> 'e + 'b" where
  "bind_result r f = (case r of Inl e \<Rightarrow> Inl e | Inr x \<Rightarrow> f x)"

fun for_each :: "('a \<Rightarrow> 's \<Rightarrow> 'e + 's) \<Rightarrow> 'a list \<Rightarrow> 's \<Rightarrow> 'e + 's" where
  "for_each f [] s = Inr s"
| "for_each f (x # xs) s = bind_result (f x s) (for_each f xs)"

section \<open>The generated scripts\<close>

definition unlines :: "string list \<Rightarrow> string" where
  "unlines ls = concat (map (\<lambda>l. l @ [CHR 0x0A]) ls)"

text \<open>Lines 45 to 48 of \<^verbatim>\<open>Notebook.create_build_script\<close>: the two artifact paths.\<close>

definition metadata_path_of :: "string \<Rightarrow> string \<Rightarrow> string \<Rightarrow> string" where
  "metadata_path_of adir categories_formatted fname =
     adir @ ''/'' @ categories_formatted @ ''/'' @ fname @ ''.metadata.json''"

definition html_path_of :: "string \<Rightarrow> string \<Rightarrow> string \<Rightarrow> string" where
  "html_path_of adir categories_formatted fname =
     adir @ ''/'' @ categories_formatted @ ''/'' @ fname @ ''.html''"

text \<open>Lines 49 to 62: the text of the per-notebook build script.\<close>

definition build_script_text :: "string \<Rightarrow> string \<Rightarrow> string \<Rightarrow> string \<Rightarrow> string \<Rightarrow> string" where
  \<open>build_script_text bdir output_dir fname metadata_path html_path =
     unlines
      [''#!/usr/bin/env bash'',
       ''set -e'',
       ''cd '' @ bdir,
       ''bash setup-build-env.sh'',
       ''source env/bin/activate'',
       ''if [ -f "environment.sh" ]; then'',
       ''    source environment.sh'',
       ''fi'',
       [],
       ''mkdir -p '' @ output_dir,
       ''python extract_metadata_from_notebook.py --input "'' @ fname
         @ ''" --output "'' @ metadata_path @ ''"'',
       ''jupyter nbconvert --debug --to html --execute "'' @ fname
         @ ''" --output "'' @ html_path @ ''" --ExecutePreprocessor.timeout=600'',
       ''cd -'']\<close>

text \<open>Lines 74 to 93: the text of the environment-setup script.\<close>

definition env_setup_script :: "Category \<Rightarrow> string" where
  \<open>env_setup_script c =
     unlines
      [''#!/usr/bin/env bash'',
       ''set -e'',
       ''cd '' @ build_dir c,
       ''virtualenv -p $(which python3) env'',
       ''source env/bin/activate'',
       ''pip install -U pip setuptools'',
       ''if [ -f "pre-install.sh" ]; then'',
       ''    bash pre-install.sh'',
       ''fi'',
       ''if [ -f "pre-requirements.txt" ]; then'',
       ''    pip install -U -r pre-requirements.txt'',
       ''fi'',
       ''pip install -U -r requirements.txt'',
       ''if [ -f "environment.sh" ]; then'',
       ''    source environment.sh'',
       ''fi'',
       ''pip install jupyter'',
       ''mkdir -p '' @ artifact_dir c,
       ''cd -'']\<close>

section \<open>The builder\<close>

text \<open>\<^verbatim>\<open>Notebook.inject_notebook\<close> and \<^verbatim>\<open>Notebook.create_build_script\<close>.\<close>

definition inject_notebook ::
  "env \<Rightarrow> Notebook \<Rightarrow> string \<Rightarrow> fstore \<Rightarrow> error \<times> fstore + fstore" where
  "inject_notebook e nb bdir s =
     (let build_path = path_join bdir (filename nb)
      in copyfile e (filepath nb) build_path s)"

definition create_build_script ::
  "Notebook \<Rightarrow> string list \<Rightarrow> string \<Rightarrow> string \<Rightarrow> fstore \<Rightarrow> error \<times> fstore + fstore" where
  "create_build_script nb cats bdir adir s =
     (let build_script_filepath = path_join bdir (filename nb @ ''-builder.sh'');
          categories_formatted = join_with ''/'' cats;
          metadata_path = metadata_path_of adir categories_formatted (filename nb);
          html_path = html_path_of adir categories_formatted (filename nb);
          output_dir = path_dirname html_path;
          build_script = build_script_text bdir output_dir (filename nb) metadata_path html_path
      in write_file build_script_filepath build_script s)"

text \<open>
  \<^verbatim>\<open>Category.setup_build_env\<close>. The two copy loops share their body: the file is
  copied when \<^verbatim>\<open>os.path.exists\<close> finds it.
\<close>

definition copy_if_exists ::
  "env \<Rightarrow> string \<Rightarrow> string \<Rightarrow> fstore \<Rightarrow> error \<times> fstore + fstore" where
  "copy_if_exists e source_filepath build_filepath s =
     (if resolve e source_filepath \<noteq> None then copyfile e source_filepath build_filepath s
      else Inr s)"

definition support_files :: "string list" where
  "support_files =
     [''environment.sh'', ''pre-install.sh'', ''pre-requirements.txt'', ''requirements.txt'']"

definition setup_build_env :: "env \<Rightarrow> Category \<Rightarrow> fstore \<Rightarrow> error \<times> fstore + fstore" where
  "setup_build_env e c s =
     bind_result (makedirs (build_dir c) s) (\<lambda>s1.
     bind_result (makedirs (artifact_dir c) s1) (\<lambda>s2.
     bind_result (write_file (path_join (build_dir c) ''setup-build-env.sh'')
                    (env_setup_script c) s2) (\<lambda>s3.
     bind_result (for_each (\<lambda>fname. copy_if_exists e (path_join (source_dir c) fname)
                    (path_join (build_dir c) fname)) support_files s3) (\<lambda>s4.
     for_each (\<lambda>fname. copy_if_exists e
                 (path_join (path_join (getcwd e) ''.circleci'') fname)
                 (path_join (build_dir c) fname))
       [''extract_metadata_from_notebook.py''] s4))))"

text \<open>
  The body of the loop of \<^verbatim>\<open>find_build_jobs\<close> for one category (lines 159 to 166):
  the environment, then for every notebook its script and its copy, and the job
  with the script paths in notebook order. When a step raises, the result is the
  exception and the store with all that the earlier steps wrote.
\<close>

definition add_notebook ::
  "env \<Rightarrow> string \<Rightarrow> Category \<Rightarrow> Notebook \<Rightarrow> string list \<times> fstore
     \<Rightarrow> error \<times> fstore + string list \<times> fstore" where
  "add_notebook e collection_name c nb acc =
     bind_result (create_build_script nb [collection_name, cat_name c]
                    (build_dir c) (artifact_dir c) (snd acc)) (\<lambda>s1.
     bind_result (inject_notebook e nb (build_dir c) s1) (\<lambda>s2.
     Inr (fst acc @ [path_join (build_dir c) (filename nb @ ''-builder.sh'')], s2)))"

definition build_job ::
  "env \<Rightarrow> string \<Rightarrow> Category \<Rightarrow> fstore \<Rightarrow> error \<times> fstore + BuildJob \<times> fstore" where
  "build_job e collection_name c s =
     bind_result (setup_build_env e c s) (\<lambda>s1.
     bind_result (for_each (add_notebook e collection_name c) (notebooks c) ([], s1))
       (\<lambda>acc. Inr (BuildJob c (fst acc), snd acc)))"

section \<open>The driver\<close>

text \<open>
  A started process is polled until it has exited. A process either exits with a
  return code after some number of polls that found it running, and then answers
  every later poll with that code, or it never exits.
\<close>

datatype proc = Exits nat int | Never_exits

fun poll :: "proc \<Rightarrow> nat \<Rightarrow> int option" where
  "poll (Exits n rc) k = (if k < n then None else Some rc)"
| "poll Never_exits k = None"

text \<open>Python's \<^verbatim>\<open>str\<close> of an integer.\<close>

fun digits :: "nat \<Rightarrow> string" where
  "digits n =
     (if n < 10 then [char_of (48 + n)]
      else digits (n div 10) @ [char_of (48 + n mod 10)])"

declare digits.simps [simp del]

definition str_int :: "int \<Rightarrow> string" where
  "str_int i = (if i < 0 then ''-'' @ digits (nat (- i)) else digits (nat i))"

text \<open>
  \<^verbatim>\<open>build_artifact\<close> (lines 172 to 182). The loop
  \<^verbatim>\<open>while proc.poll() is None: time.sleep(.1)\<close> may run forever, so the result
  is an option: \<open>None\<close> when the call never returns.
\<close>

partial_function (option) wait_for_exit :: "proc \<Rightarrow> nat \<Rightarrow> int option" where
  "wait_for_exit p k =
     (case poll p k of
        None \<Rightarrow> wait_for_exit p (Suc k)
      | Some rc \<Rightarrow> Some rc)"

declare wait_for_exit.simps [code]

definition build_artifact :: "proc \<Rightarrow> (error + unit) option" where
  "build_artifact p =
     (case wait_for_exit p 0 of
        None \<Rightarrow> None
      | Some rc \<Rightarrow>
          if rc > 0 then Some (Inl (BuildError (''Process Exit Code['' @ str_int rc @ '']'')))
          else Some (Inr ()))"

text \<open>
  The run of the script as a whole: the store, what the driver did (processes
  started, errors logged, debugger stops), the exception that ended the run, and
  whether the run is stuck waiting for a process that never exits.
\<close>

datatype event = Popen string | LogError string | SetTrace

record run_state =
  fs :: fstore
  events :: "event list"
  uncaught :: "error option"
  hung :: bool

definition halted :: "run_state \<Rightarrow> bool" where
  "halted rs = (uncaught rs \<noteq> None \<or> hung rs)"

text \<open>
  \<^verbatim>\<open>build_collections\<close> and \<^verbatim>\<open>find_build_jobs\<close> are generators consumed by a
  \<^verbatim>\<open>for\<close> loop; each takes the body of that loop, which runs at every \<^verbatim>\<open>yield\<close>.
  The list comprehension of line 154 runs the scanner to its end before the
  collection is yielded.
\<close>

definition build_collections ::
  "env \<Rightarrow> (Collection \<Rightarrow> run_state \<Rightarrow> run_state) \<Rightarrow> run_state \<Rightarrow> run_state" where
  "build_collections e body rs =
     foldl (\<lambda>rs name.
        if halted rs then rs
        else
          let c_path = path_join (getcwd e) name;
              start = \<lparr>store = fs rs, yielded = [], raised = None\<rparr>;
              scan = (case resolve e c_path of
                        None \<Rightarrow> start
                      | Some t \<Rightarrow> build_categories (getcwd e) c_path t start)
          in (case raised scan of
                Some err \<Rightarrow> rs\<lparr>fs := store scan, uncaught := Some err\<rparr>
              | None \<Rightarrow> body (Collection name (map fst (yielded scan)))
                          (rs\<lparr>fs := store scan\<rparr>)))
       rs [''jdat_notebooks'']"

definition find_build_jobs ::
  "env \<Rightarrow> (BuildJob \<Rightarrow> run_state \<Rightarrow> run_state) \<Rightarrow> run_state \<Rightarrow> run_state" where
  "find_build_jobs e body rs =
     build_collections e (\<lambda>collection rs0.
        foldl (\<lambda>rs1 category.
           if halted rs1 then rs1
           else (case build_job e (coll_name collection) category (fs rs1) of
                   Inl err \<Rightarrow> rs1\<lparr>fs := snd err, uncaught := Some (fst err)\<rparr>
                 | Inr r \<Rightarrow> body (fst r) (rs1\<lparr>fs := snd r\<rparr>)))
          rs0 (categories collection))
       rs"

text \<open>
  \<^verbatim>\<open>main\<close> (lines 184 to 198). What happens outside the script is a parameter of
  the run, the world: the behaviour of the process that a shell command starts,
  and what becomes of the debugger session that \<^verbatim>\<open>pdb.set_trace()\<close> of line 197
  opens after the build of a script has failed. The session is resumed, and the
  loop goes on with the next script; or it is ended (by the quit command, or by
  the end of the input when nobody is there to answer), which raises
  \<^verbatim>\<open>bdb.BdbQuit\<close> inside \<^verbatim>\<open>main\<close>, where nothing catches it; or it is never
  answered, and the run waits at the prompt for ever.
\<close>

datatype reply = Resumes | Quits | Never_answers

record world =
  process :: "string \<Rightarrow> proc"
  debugger :: "string \<Rightarrow> reply"

definition pass_names :: "string list" where
  "pass_names = [''preimaging_01_mirage.ipynb-builder.sh'']"

definition run_script :: "world \<Rightarrow> run_state \<Rightarrow> string \<Rightarrow> run_state" where
  "run_script world rs script =
     (if halted rs then rs
      else
        let name = basename script
        in if name \<in> set pass_names then rs
           else
             let command = ''bash '' @ script;
                 rs1 = rs\<lparr>events := events rs @ [Popen command]\<rparr>
             in (case build_artifact (process world command) of
                   None \<Rightarrow> rs1\<lparr>hung := True\<rparr>
                 | Some (Inr u) \<Rightarrow> rs1
                 | Some (Inl err) \<Rightarrow>
                     let rs2 = rs1\<lparr>events := events rs1 @
                                 [LogError (''Unable to build '' @ script), SetTrace]\<rparr>
                     in (case debugger world script of
                           Resumes \<Rightarrow> rs2
                         | Quits \<Rightarrow> rs2\<lparr>uncaught := Some BdbQuit\<rparr>
                         | Never_answers \<Rightarrow> rs2\<lparr>hung := True\<rparr>)))"

definition main :: "env \<Rightarrow> world \<Rightarrow> run_state \<Rightarrow> run_state" where
  "main e world rs =
     find_build_jobs e (\<lambda>build_job rs0. foldl (run_script world) rs0 (scripts build_job)) rs"

text \<open>Lines 29 to 32, run when the module is loaded: the artifact root is reset.\<close>

definition module_init :: "fstore \<Rightarrow> error \<times> fstore + fstore" where
  "module_init s =
     (case remove_stale ARTIFACT_DEST_DIR s of
        Inl err \<Rightarrow> Inl (err, s)
      | Inr s1 \<Rightarrow> makedirs ARTIFACT_DEST_DIR s1)"

definition program :: "env \<Rightarrow> world \<Rightarrow> fstore \<Rightarrow> run_state" where
  "program e world s =
     (case module_init s of
        Inl err \<Rightarrow> \<lparr>fs = snd err, events = [], uncaught = Some (fst err), hung = False\<rparr>
      | Inr s1 \<Rightarrow> main e world \<lparr>fs = s1, events = [], uncaught = None, hung = False\<rparr>)"

section \<open>Properties of the scanner\<close>

text \<open>Two facts about loops written as folds over a state.\<close>

lemma foldl_rel:
  assumes refl: "\<And>s. R s s"
    and trans: "\<And>a b c. R a b \<Longrightarrow> R b c \<Longrightarrow> R a c"
    and step: "\<And>s x. x \<in> set xs \<Longrightarrow> R s (f s x)"
  shows "R s (foldl f s xs)"
  using step
proof (induction xs arbitrary: s)
  case Nil
  show ?case by (simp add: refl)
next
  case (Cons x xs)
  have "R s (f s x)" by (rule Cons.prems) simp
  moreover have "R (f s x) (foldl f (f s x) xs)"
    by (rule Cons.IH) (simp add: Cons.prems)
  ultimately show ?case using trans by simp
qed

lemma foldl_establish:
  assumes x: "x \<in> set xs"
    and est: "\<And>s. Q (f s x)"
    and pres: "\<And>s y. y \<in> set xs \<Longrightarrow> Q s \<Longrightarrow> Q (f s y)"
  shows "Q (foldl f s xs)"
proof -
  have keep: "set ys \<subseteq> set xs \<Longrightarrow> Q s \<Longrightarrow> Q (foldl f s ys)" for s ys
    by (induction ys arbitrary: s) (auto intro: pres)
  have "set ys \<subseteq> set xs \<Longrightarrow> x \<in> set ys \<Longrightarrow> Q (foldl f s ys)" for ys
  proof (induction ys arbitrary: s)
    case Nil
    then show ?case by simp
  next
    case (Cons y ys)
    show ?case
    proof (cases "x = y")
      case True
      have "Q (f s x)" by (rule est)
      moreover from Cons.prems have "set ys \<subseteq> set xs" by simp
      ultimately have "Q (foldl f (f s x) ys)" by (rule keep[rotated])
      with True show ?thesis by simp
    next
      case False
      with Cons show ?thesis by simp
    qed
  qed
  with x show ?thesis by blast
qed

lemma walk_all_entry: "(n, c) \<in> set es \<Longrightarrow> set (walk (path_join tp n) c) \<subseteq> set (walk_all tp es)"
  by (induction es) auto

lemma walk_sub:
  "w \<in> set (walk tp u) \<Longrightarrow> d \<in> set (fst (snd w)) \<Longrightarrow>
     set (walk (path_join (fst w) (fst d)) (snd d)) \<subseteq> set (walk tp u)"
  "w \<in> set (walk_all tp es) \<Longrightarrow> d \<in> set (fst (snd w)) \<Longrightarrow>
     set (walk (path_join (fst w) (fst d)) (snd d)) \<subseteq> set (walk_all tp es)"
proof (induction tp u and tp es arbitrary: w d and w d rule: walk_walk_all.induct)
  case (2 tp es)
  show ?case
  proof (cases "w = (tp, subdirs es, nondirs es)")
    case True
    with 2 have "(fst d, snd d) \<in> set es" by (simp add: subdirs_def)
    then have "set (walk (path_join tp (fst d)) (snd d)) \<subseteq> set (walk_all tp es)"
      by (rule walk_all_entry)
    with True show ?thesis by auto
  next
    case False
    with 2(2) have "w \<in> set (walk_all tp es)" by simp
    from 2(1)[OF this 2(3)] show ?thesis by auto
  qed
next
  case (4 tp n c es)
  from 4(3) have "w \<in> set (walk (path_join tp n) c) \<or> w \<in> set (walk_all tp es)"
    by simp
  then show ?case
  proof
    assume "w \<in> set (walk (path_join tp n) c)"
    from 4(1)[OF this 4(4)] show ?thesis by auto
  next
    assume "w \<in> set (walk_all tp es)"
    from 4(2)[OF this 4(4)] show ?thesis by auto
  qed
qed auto

text \<open>The category that lines 124 to 145 build for the directory d listed under root.\<close>

definition category_of :: "string \<Rightarrow> string \<Rightarrow> string \<times> node \<Rightarrow> Category" where
  "category_of cwd root d =
     Category (fst d) (find_notebooks cwd (path_join root (fst d)) (snd d))
       (path_join root (fst d)) (path_join BUILD_BASE_DIR (fst d))
       (path_join ARTIFACT_DEST_DIR (fst d))"

lemma scan_rel:
  assumes refl: "\<And>s. R s s"
    and trans: "\<And>a b c. R a b \<Longrightarrow> R b c \<Longrightarrow> R a c"
    and step: "\<And>w d s. w \<in> set (walk sp t) \<Longrightarrow> d \<in> set (fst (snd w)) \<Longrightarrow>
                 raised s = None \<Longrightarrow>
                 find_notebooks cwd (path_join (fst w) (fst d)) (snd d) \<noteq> [] \<Longrightarrow>
                 R s (yield_category cwd (fst d) (path_join (fst w) (fst d)) (snd d)
                        (find_notebooks cwd (path_join (fst w) (fst d)) (snd d)) s)"
  shows build_categories_rel: "R st (build_categories cwd sp t st)"
    and scan_dirs_rel: "w \<in> set (walk sp t) \<Longrightarrow> R st (scan_dirs cwd st w)"
    and scan_child_rel: "w \<in> set (walk sp t) \<Longrightarrow> d \<in> set (fst (snd w)) \<Longrightarrow>
                           R st (scan_child cwd (fst w) st d)"
proof -
  have main: "(\<forall>w \<in> set (walk sp t). \<forall>d \<in> set (fst (snd w)). \<forall>s.
        raised s = None \<longrightarrow>
        find_notebooks cwd (path_join (fst w) (fst d)) (snd d) \<noteq> [] \<longrightarrow>
        R s (yield_category cwd (fst d) (path_join (fst w) (fst d)) (snd d)
               (find_notebooks cwd (path_join (fst w) (fst d)) (snd d)) s))
      \<Longrightarrow> (\<forall>w \<in> set (walk sp t). \<forall>d \<in> set (fst (snd w)). \<forall>s.
             R s (scan_child cwd (fst w) s d))" for sp t
  proof (induction t arbitrary: sp rule: measure_induct_rule[of size])
    case (less t)
    show ?case
    proof (intro ballI allI)
      fix w d s
      assume w: "w \<in> set (walk sp t)" and d: "d \<in> set (fst (snd w))"
      let ?dp = "path_join (fst w) (fst d)"
      have sz: "size (snd d) < size t" using w d by (rule walk_subdir_size(1))
      have sub: "set (walk ?dp (snd d)) \<subseteq> set (walk sp t)" using w d by (rule walk_sub(1))
      have inner: "\<forall>w' \<in> set (walk ?dp (snd d)). \<forall>d' \<in> set (fst (snd w')). \<forall>s.
          R s (scan_child cwd (fst w') s d')"
        by (rule less.IH[OF sz]) (use less.prems sub in blast)
      have "R s' (scan_dirs cwd s' w')" if "w' \<in> set (walk ?dp (snd d))" for w' s'
        unfolding scan_dirs_def
      proof (rule foldl_rel[where R=R])
        show "\<And>s. R s s" by (rule refl)
        show "\<And>a b c. R a b \<Longrightarrow> R b c \<Longrightarrow> R a c" by (rule trans)
        show "\<And>s x. x \<in> set (fst (snd w')) \<Longrightarrow> R s (scan_child cwd (fst w') s x)"
          using inner that by blast
      qed
      then have rec: "R s (build_categories cwd ?dp (snd d) s)"
        unfolding build_categories_loop
        by (intro foldl_rel[where R=R] refl) (erule (1) trans)
      show "R s (scan_child cwd (fst w) s d)"
        using rec less.prems w d by (simp add: scan_child_def Let_def refl)
    qed
  qed
  have child: "\<forall>w \<in> set (walk sp t). \<forall>d \<in> set (fst (snd w)). \<forall>s.
      R s (scan_child cwd (fst w) s d)"
    by (rule main) (use step in blast)
  then show c: "w \<in> set (walk sp t) \<Longrightarrow> d \<in> set (fst (snd w)) \<Longrightarrow>
      R st (scan_child cwd (fst w) st d)" by blast
  have dirs: "R s (scan_dirs cwd s w)" if "w \<in> set (walk sp t)" for w s
    unfolding scan_dirs_def
  proof (rule foldl_rel[where R=R])
    show "\<And>s. R s s" by (rule refl)
    show "\<And>a b c. R a b \<Longrightarrow> R b c \<Longrightarrow> R a c" by (rule trans)
    show "\<And>s x. x \<in> set (fst (snd w)) \<Longrightarrow> R s (scan_child cwd (fst w) s x)"
      using child that by blast
  qed
  then show "w \<in> set (walk sp t) \<Longrightarrow> R st (scan_dirs cwd st w)" .
  show "R st (build_categories cwd sp t st)"
    unfolding build_categories_loop
    by (intro foldl_rel[where R=R] refl dirs) (erule (1) trans)
qed

text \<open>What one pass through lines 131 to 145 does.\<close>

lemma remove_stale_gone: "remove_stale p s = Inr s' \<Longrightarrow> s' p = None"
  by (auto simp: remove_stale_def path_exists_def rmtree_def split: if_splits option.splits fsobj.splits)

lemma remove_stale_only_removes: "remove_stale p s = Inr s' \<Longrightarrow> s q = None \<Longrightarrow> s' q = None"
  by (auto simp: remove_stale_def path_exists_def rmtree_def split: if_splits option.splits fsobj.splits)

lemma yield_category_missing:
  "\<not> has_entry d ''requirements.txt'' \<Longrightarrow>
     yield_category cwd dn dp d nbs s =
       s\<lparr>raised := Some (NotImplementedError (''Category missing Requirements File[''
            @ relpath cwd (path_join dp ''requirements.txt'') @ '']''))\<rparr>"
  by (simp add: yield_category_def)

lemma yield_category_result:
  assumes "raised s = None"
  shows "(raised (yield_category cwd dn dp d nbs s) \<noteq> None
            \<and> yielded (yield_category cwd dn dp d nbs s) = yielded s)
         \<or> (has_entry d ''requirements.txt''
            \<and> raised (yield_category cwd dn dp d nbs s) = None
            \<and> yielded (yield_category cwd dn dp d nbs s) =
                yielded s @ [(Category dn nbs dp (path_join BUILD_BASE_DIR dn)
                               (path_join ARTIFACT_DEST_DIR dn),
                              store (yield_category cwd dn dp d nbs s))]
            \<and> store (yield_category cwd dn dp d nbs s) (path_join BUILD_BASE_DIR dn) = None
            \<and> store (yield_category cwd dn dp d nbs s) (path_join ARTIFACT_DEST_DIR dn) = None)"
proof (cases "has_entry d ''requirements.txt''")
  case False
  then show ?thesis by (simp add: yield_category_missing)
next
  case True
  show ?thesis
  proof (cases "remove_stale (path_join BUILD_BASE_DIR dn) (store s)")
    case (Inl e)
    with True show ?thesis by (simp add: yield_category_def)
  next
    case (Inr s1)
    note s1 = this
    show ?thesis
    proof (cases "remove_stale (path_join ARTIFACT_DEST_DIR dn) s1")
      case (Inl e)
      with True s1 show ?thesis by (simp add: yield_category_def)
    next
      case (Inr s2)
      have "s2 (path_join ARTIFACT_DEST_DIR dn) = None"
        using Inr by (rule remove_stale_gone)
      moreover have "s2 (path_join BUILD_BASE_DIR dn) = None"
        using Inr remove_stale_gone[OF s1] by (rule remove_stale_only_removes)
      ultimately show ?thesis
        using True s1 Inr assms by (simp add: yield_category_def Let_def)
    qed
  qed
qed

lemma build_categories_sticky:
  "raised st \<noteq> None \<Longrightarrow> build_categories cwd sp t st = st"
  by (rule build_categories_rel[where R="\<lambda>s s'. raised s \<noteq> None \<longrightarrow> s' = s", rule_format]) auto

text \<open>
  A later state of a scan extends an earlier one: nothing happens after an
  exception, and categories are only ever added at the end.
\<close>

definition extends :: "scan_state \<Rightarrow> scan_state \<Rightarrow> bool" where
  "extends s s' = ((raised s \<noteq> None \<longrightarrow> s' = s) \<and> (\<exists>ys. yielded s' = yielded s @ ys))"

lemma extends_refl: "extends s s"
  by (simp add: extends_def)

lemma extends_trans: "extends a b \<Longrightarrow> extends b c \<Longrightarrow> extends a c"
  by (auto simp: extends_def)

lemma yield_category_extends:
  "raised s = None \<Longrightarrow> extends s (yield_category cwd dn dp d nbs s)"
  using yield_category_result[of s cwd dn dp d nbs] by (auto simp: extends_def)

lemma build_categories_extends: "extends st (build_categories cwd sp t st)"
  by (rule build_categories_rel[where R=extends])
    (auto intro: extends_refl extends_trans yield_category_extends)

lemma scan_dirs_extends: "w \<in> set (walk sp t) \<Longrightarrow> extends st (scan_dirs cwd st w)"
  by (rule scan_dirs_rel[where R=extends])
    (auto intro: extends_refl extends_trans yield_category_extends)

lemma scan_child_extends:
  "w \<in> set (walk sp t) \<Longrightarrow> d \<in> set (fst (snd w)) \<Longrightarrow> extends st (scan_child cwd (fst w) st d)"
  by (rule scan_child_rel[where R=extends])
    (auto intro: extends_refl extends_trans yield_category_extends)

text \<open>
  What is handed over at a \<^verbatim>\<open>yield\<close>: the category of a listed directory that
  holds notebooks and \<^verbatim>\<open>requirements.txt\<close>, with a store in which neither its build
  directory nor its artifact directory exists.
\<close>

definition handed_over :: "string \<Rightarrow> string \<Rightarrow> node \<Rightarrow> Category \<times> fstore \<Rightarrow> bool" where
  "handed_over cwd sp t h =
     (\<exists>w \<in> set (walk sp t). \<exists>d \<in> set (fst (snd w)).
        fst h = category_of cwd (fst w) d
        \<and> notebooks (fst h) \<noteq> []
        \<and> has_entry (snd d) ''requirements.txt''
        \<and> snd h (build_dir (fst h)) = None
        \<and> snd h (artifact_dir (fst h)) = None)"

lemma handed_overI:
  assumes "w \<in> set (walk sp t)" and "d \<in> set (fst (snd w))"
    and "find_notebooks cwd (path_join (fst w) (fst d)) (snd d) \<noteq> []"
    and "has_entry (snd d) ''requirements.txt''"
    and "snap (path_join BUILD_BASE_DIR (fst d)) = None"
    and "snap (path_join ARTIFACT_DEST_DIR (fst d)) = None"
  shows "handed_over cwd sp t (category_of cwd (fst w) d, snap)"
  unfolding handed_over_def
  apply (rule bexI[OF _ assms(1)])
  apply (rule bexI[OF _ assms(2)])
  using assms(3-6) apply (simp add: category_of_def)
  done

lemma yielded_sound:
  assumes "\<forall>h \<in> set (yielded st). handed_over cwd sp t h"
  shows "\<forall>h \<in> set (yielded (build_categories cwd sp t st)). handed_over cwd sp t h"
proof -
  let ?I = "\<lambda>s::scan_state. \<forall>h \<in> set (yielded s). handed_over cwd sp t h"
  have "?I st \<longrightarrow> ?I (build_categories cwd sp t st)"
  proof (rule build_categories_rel[where R="\<lambda>s s'. ?I s \<longrightarrow> ?I s'"])
    show "\<And>s. ?I s \<longrightarrow> ?I s" by (rule impI)
    show "\<And>a b c. ?I a \<longrightarrow> ?I b \<Longrightarrow> ?I b \<longrightarrow> ?I c \<Longrightarrow> ?I a \<longrightarrow> ?I c" by (iprover)
  next
    fix w d and s :: scan_state
    assume w: "w \<in> set (walk sp t)" and d: "d \<in> set (fst (snd w))"
      and r: "raised s = None"
      and n: "find_notebooks cwd (path_join (fst w) (fst d)) (snd d) \<noteq> []"
    let ?s' = "yield_category cwd (fst d) (path_join (fst w) (fst d)) (snd d)
                 (find_notebooks cwd (path_join (fst w) (fst d)) (snd d)) s"
    show "?I s \<longrightarrow> ?I ?s'"
    proof
      assume I: "?I s"
      from yield_category_result[OF r, of cwd "fst d" "path_join (fst w) (fst d)" "snd d"
          "find_notebooks cwd (path_join (fst w) (fst d)) (snd d)"]
      show "?I ?s'"
      proof (elim disjE conjE)
        assume "yielded ?s' = yielded s"
        with I show ?thesis by simp
      next
        assume h: "has_entry (snd d) ''requirements.txt''"
          and y: "yielded ?s' = yielded s @
             [(Category (fst d) (find_notebooks cwd (path_join (fst w) (fst d)) (snd d))
                 (path_join (fst w) (fst d)) (path_join BUILD_BASE_DIR (fst d))
                 (path_join ARTIFACT_DEST_DIR (fst d)), store ?s')]"
          and b: "store ?s' (path_join BUILD_BASE_DIR (fst d)) = None"
          and a: "store ?s' (path_join ARTIFACT_DEST_DIR (fst d)) = None"
        have "handed_over cwd sp t (category_of cwd (fst w) d, store ?s')"
          using w d n h b a by (rule handed_overI)
        then have "handed_over cwd sp t
           (Category (fst d) (find_notebooks cwd (path_join (fst w) (fst d)) (snd d))
                 (path_join (fst w) (fst d)) (path_join BUILD_BASE_DIR (fst d))
                 (path_join ARTIFACT_DEST_DIR (fst d)), store ?s')"
          by (simp only: category_of_def)
        with I show ?thesis unfolding y by simp
      qed
    qed
  qed
  with assms show ?thesis by (rule mp[rotated])
qed

lemma scan_raises_at:
  assumes w: "w \<in> set (walk sp t)" and d: "d \<in> set (fst (snd w))"
    and est: "\<And>s. Q (scan_child cwd (fst w) s d)"
    and keep: "\<And>s s'. extends s s' \<Longrightarrow> Q s \<Longrightarrow> Q s'"
  shows "Q (build_categories cwd sp t st)"
  unfolding build_categories_loop
proof (rule foldl_establish[where x=w])
  show "w \<in> set (walk sp t)" by (rule w)
  show "Q (scan_dirs cwd s w)" for s
    unfolding scan_dirs_def
  proof (rule foldl_establish[where x=d])
    show "d \<in> set (fst (snd w))" by (rule d)
    show "\<And>s. Q (scan_child cwd (fst w) s d)" by (rule est)
    show "\<And>s y. y \<in> set (fst (snd w)) \<Longrightarrow> Q s \<Longrightarrow> Q (scan_child cwd (fst w) s y)"
      using keep scan_child_extends[OF w] by blast
  qed
  show "\<And>s y. y \<in> set (walk sp t) \<Longrightarrow> Q s \<Longrightarrow> Q (scan_dirs cwd s y)"
    using keep scan_dirs_extends by blast
qed

lemma scan_yields_directory:
  assumes w: "w \<in> set (walk sp t)" and d: "d \<in> set (fst (snd w))"
    and n: "find_notebooks cwd (path_join (fst w) (fst d)) (snd d) \<noteq> []"
  shows "raised (build_categories cwd sp t st) \<noteq> None
     \<or> category_of cwd (fst w) d \<in> fst ` set (yielded (build_categories cwd sp t st))"
proof (rule scan_raises_at[OF w d, where Q="\<lambda>s. raised s \<noteq> None \<or> category_of cwd (fst w) d \<in> fst ` set (yielded s)"])
  fix s :: scan_state
  show "raised (scan_child cwd (fst w) s d) \<noteq> None
      \<or> category_of cwd (fst w) d \<in> fst ` set (yielded (scan_child cwd (fst w) s d))"
  proof (cases "raised s = None")
    case False
    then show ?thesis by (simp add: scan_child_def)
  next
    case True
    from yield_category_result[OF True, of cwd "fst d" "path_join (fst w) (fst d)" "snd d"
          "find_notebooks cwd (path_join (fst w) (fst d)) (snd d)"]
    show ?thesis using True n
      by (auto simp: scan_child_def Let_def category_of_def image_iff)
  qed
next
  fix s s' :: scan_state
  assume "extends s s'"
    and "raised s \<noteq> None \<or> category_of cwd (fst w) d \<in> fst ` set (yielded s)"
  then show "raised s' \<noteq> None \<or> category_of cwd (fst w) d \<in> fst ` set (yielded s')"
    by (auto simp: extends_def)
qed

lemma scan_missing_requirements:
  assumes w: "w \<in> set (walk sp t)" and d: "d \<in> set (fst (snd w))"
    and n: "find_notebooks cwd (path_join (fst w) (fst d)) (snd d) \<noteq> []"
    and m: "\<not> has_entry (snd d) ''requirements.txt''"
  shows "raised (build_categories cwd sp t st) \<noteq> None"
proof (rule scan_raises_at[OF w d, where Q="\<lambda>s. raised s \<noteq> None"])
  show "raised (scan_child cwd (fst w) s d) \<noteq> None" for s
    using n m by (simp add: scan_child_def Let_def yield_category_missing)
  show "\<And>s s'. extends s s' \<Longrightarrow> raised s \<noteq> None \<Longrightarrow> raised s' \<noteq> None"
    by (auto simp: extends_def)
qed

section \<open>Claims about the scanner\<close>

text \<open>A scan starts with nothing yielded and nothing raised.\<close>

definition scan_start :: "fstore \<Rightarrow> scan_state" where
  "scan_start s = \<lparr>store = s, yielded = [], raised = None\<rparr>"

text \<open>
  Example inputs: a directory of one notebook with its requirements file; a tree
  in which a notebook directory \<^verbatim>\<open>D\<close> holds a notebook directory \<^verbatim>\<open>E\<close>; a tree in
  which the notebook directory \<^verbatim>\<open>B\<close> lies below a directory \<^verbatim>\<open>A\<close> without notebooks;
  and a store with a build directory and an artifact directory left from an earlier
  run.
\<close>

definition nb_dir :: node where
  "nb_dir = Dir [(''n.ipynb'', File ''x''), (''requirements.txt'', File ''numpy'')]"

definition nested_tree :: node where
  "nested_tree = Dir [(''D'', Dir [(''m.ipynb'', File ''y''), (''requirements.txt'', File []),
                     (''E'', nb_dir)])]"

definition grouped_tree :: node where
  "grouped_tree = Dir [(''A'', Dir [(''B'', nb_dir)])]"

definition stale_store :: fstore where
  "stale_store = [''/tmp'' \<mapsto> DirObj,
     ''/tmp/nbcollection-ci-build-base-dir'' \<mapsto> DirObj,
     ''/tmp/nbcollection-ci-build-base-dir/B'' \<mapsto> DirObj,
     ''/tmp/nbcollection-ci-build-base-dir/B/old.sh'' \<mapsto> FileObj ''old'',
     ''/tmp/artifacts'' \<mapsto> DirObj,
     ''/tmp/artifacts/B'' \<mapsto> DirObj]"






section \<open>Properties of the builder\<close>

text \<open>
  Creating directories leaves every object of the store as it is and adds
  directories only, whether the call returns or raises.
\<close>

definition adds_dirs :: "fstore \<Rightarrow> fstore \<Rightarrow> bool" where
  "adds_dirs s s' = (\<forall>q. s' q = s q \<or> (s q = None \<and> s' q = Some DirObj))"

definition store_after :: "error \<times> fstore + fstore \<Rightarrow> fstore" where
  "store_after r = (case r of Inl err \<Rightarrow> snd err | Inr s' \<Rightarrow> s')"

lemma store_after_simps [simp]:
  "store_after (Inl (err, s)) = s" "store_after (Inr s) = s"
  by (simp_all add: store_after_def)

lemma adds_dirs_refl: "adds_dirs s s"
  by (simp add: adds_dirs_def)

lemma adds_dirs_trans: "adds_dirs a b \<Longrightarrow> adds_dirs b c \<Longrightarrow> adds_dirs a c"
  unfolding adds_dirs_def by metis

lemma mkdir_adds: "adds_dirs s (store_after (mkdir p s))"
  by (auto simp: mkdir_def adds_dirs_def split: option.splits)

lemma makedirs_adds: "adds_dirs s (store_after (makedirs p s))"
proof (induction p s rule: makedirs.induct)
  case (1 name s)
  let ?rawhead = "path_dirname name"
  let ?rawtail = "basename name"
  let ?head = "if ?rawtail = [] then path_dirname ?rawhead else ?rawhead"
  let ?tail = "if ?rawtail = [] then basename ?rawhead else ?rawtail"
  show ?case
  proof (cases "?head \<noteq> [] \<and> ?tail \<noteq> [] \<and> \<not> path_exists s ?head")
    case False
    have "makedirs name s = mkdir name s"
      by (subst makedirs.simps, unfold Let_def, rule if_not_P, rule False)
    then show ?thesis by (simp add: mkdir_adds)
  next
    case True
    have IH: "adds_dirs s (store_after (makedirs ?head s))"
      using "1.IH"[OF refl refl refl refl True] .
    have unfold: "makedirs name s = (case makedirs ?head s of
                 Inl (FileExistsError x, s1) \<Rightarrow> (if ?tail = ''.'' then Inr s1 else mkdir name s1)
               | Inl (e, s1) \<Rightarrow> Inl (e, s1)
               | Inr s1 \<Rightarrow> (if ?tail = ''.'' then Inr s1 else mkdir name s1))"
      by (subst makedirs.simps, unfold Let_def, rule if_P, rule True)
    have goes_on: "adds_dirs s (store_after (if ?tail = ''.'' then Inr s1 else mkdir name s1))"
      if "adds_dirs s s1" for s1
      using that mkdir_adds[of s1 name] by (auto intro: adds_dirs_trans)
    show ?thesis
    proof (cases "makedirs ?head s")
      case (Inr s1)
      with IH have "adds_dirs s s1" by simp
      then show ?thesis unfolding unfold Inr using goes_on by simp
    next
      case (Inl err)
      obtain e s1 where err: "err = (e, s1)" by (cases err)
      with IH Inl have a: "adds_dirs s s1" by simp
      show ?thesis unfolding unfold Inl err using a goes_on[OF a] by (cases e) simp_all
    qed
  qed
qed

lemma makedirs_adds_dirs: "makedirs p s = Inr s' \<Longrightarrow> adds_dirs s s'"
  using makedirs_adds[of s p] by simp

lemma write_file_result: "write_file p c s = Inr s' \<Longrightarrow> s' = s(p \<mapsto> FileObj c)"
  by (auto simp: write_file_def split: if_splits option.splits)

lemma copyfile_result:
  "copyfile e src dst s = Inr s' \<Longrightarrow>
     \<exists>c. resolve e src = Some (File c) \<and> s' = s(dst \<mapsto> FileObj c)"
  by (auto simp: copyfile_def split: option.splits node.splits dest: write_file_result)

text \<open>
  What a build job writes, as a list of paths with contents in the order of the
  writes: the store after a build job that returns is the store before it with
  some directories added and these writes applied.
\<close>

definition apply_writes :: "fstore \<Rightarrow> (string \<times> string) list \<Rightarrow> fstore" where
  "apply_writes s W = foldl (\<lambda>s' kv. s'(fst kv \<mapsto> FileObj (snd kv))) s W"

lemma apply_writes_Nil [simp]: "apply_writes s [] = s"
  by (simp add: apply_writes_def)

lemma apply_writes_append [simp]:
  "apply_writes s (V @ W) = apply_writes (apply_writes s V) W"
  by (simp add: apply_writes_def)

lemma apply_writes_single [simp]: "apply_writes s [(k, v)] = s(k \<mapsto> FileObj v)"
  by (simp add: apply_writes_def)

lemma apply_writes_lookup:
  "apply_writes s W k = (case map_of (rev W) k of Some v \<Rightarrow> Some (FileObj v) | None \<Rightarrow> s k)"
proof (induction W rule: rev_induct)
  case Nil
  show ?case by simp
next
  case (snoc kv W)
  obtain k' v' where kv: "kv = (k', v')" by (cases kv)
  show ?case using snoc by (simp add: kv)
qed

definition source_copy :: "env \<Rightarrow> string \<Rightarrow> string \<Rightarrow> (string \<times> string) list" where
  "source_copy e src dst =
     (case resolve e src of
        Some (File content) \<Rightarrow> [(dst, content)]
      | Some (Dir es) \<Rightarrow> []
      | None \<Rightarrow> [])"

lemma copy_if_exists_writes:
  "copy_if_exists e src dst s = Inr s' \<Longrightarrow> s' = apply_writes s (source_copy e src dst)"
  by (auto simp: copy_if_exists_def source_copy_def split: if_splits dest!: copyfile_result)

lemma inject_notebook_writes:
  "inject_notebook e nb bd s = Inr s' \<Longrightarrow>
     s' = apply_writes s (source_copy e (filepath nb) (path_join bd (filename nb)))
     \<and> (\<exists>content. resolve e (filepath nb) = Some (File content))"
  by (auto simp: inject_notebook_def source_copy_def Let_def dest!: copyfile_result)

lemma bind_result_Inr:
  "bind_result r f = Inr y \<Longrightarrow> \<exists>x. r = Inr x \<and> f x = Inr y"
  by (cases r) (simp_all add: bind_result_def)

lemma for_each_writes:
  assumes "\<And>x s s'. x \<in> set xs \<Longrightarrow> f x s = Inr s' \<Longrightarrow> s' = apply_writes s (W x)"
    and "for_each f xs s = Inr s'"
  shows "s' = apply_writes s (concat (map W xs))"
  using assms
proof (induction xs arbitrary: s)
  case Nil
  then show ?case by simp
next
  case (Cons x xs)
  from Cons.prems(2) obtain s1 where 1: "f x s = Inr s1" and 2: "for_each f xs s1 = Inr s'"
    by (auto dest: bind_result_Inr)
  from Cons.prems(1)[OF _ 1] have "s1 = apply_writes s (W x)" by simp
  moreover have "s' = apply_writes s1 (concat (map W xs))"
    by (rule Cons.IH[OF _ 2]) (use Cons.prems(1) in auto)
  ultimately show ?case by simp
qed

text \<open>The path of the build script of a notebook (line 44, and again line 164) and its text.\<close>

definition script_path :: "Category \<Rightarrow> Notebook \<Rightarrow> string" where
  "script_path c nb = path_join (build_dir c) (filename nb @ ''-builder.sh'')"

definition script_text :: "string \<Rightarrow> Category \<Rightarrow> Notebook \<Rightarrow> string" where
  "script_text collection_name c nb =
     build_script_text (build_dir c)
       (path_dirname (html_path_of (artifact_dir c)
          (join_with ''/'' [collection_name, cat_name c]) (filename nb)))
       (filename nb)
       (metadata_path_of (artifact_dir c)
          (join_with ''/'' [collection_name, cat_name c]) (filename nb))
       (html_path_of (artifact_dir c)
          (join_with ''/'' [collection_name, cat_name c]) (filename nb))"

definition setup_writes :: "env \<Rightarrow> Category \<Rightarrow> (string \<times> string) list" where
  "setup_writes e c =
     [(path_join (build_dir c) ''setup-build-env.sh'', env_setup_script c)]
     @ concat (map (\<lambda>fname. source_copy e (path_join (source_dir c) fname)
                      (path_join (build_dir c) fname)) support_files)
     @ source_copy e (path_join (path_join (getcwd e) ''.circleci'')
                        ''extract_metadata_from_notebook.py'')
         (path_join (build_dir c) ''extract_metadata_from_notebook.py'')"

definition notebook_writes ::
  "env \<Rightarrow> string \<Rightarrow> Category \<Rightarrow> Notebook \<Rightarrow> (string \<times> string) list" where
  "notebook_writes e collection_name c nb =
     [(script_path c nb, script_text collection_name c nb)]
     @ source_copy e (filepath nb) (path_join (build_dir c) (filename nb))"

definition planned_writes :: "env \<Rightarrow> string \<Rightarrow> Category \<Rightarrow> (string \<times> string) list" where
  "planned_writes e collection_name c =
     setup_writes e c @ concat (map (notebook_writes e collection_name c) (notebooks c))"

lemma setup_build_env_writes:
  assumes "setup_build_env e c s = Inr s'"
  shows "\<exists>s2. adds_dirs s s2 \<and> s' = apply_writes s2 (setup_writes e c)"
proof -
  from assms obtain s1 s2 s3 s4 where
    1: "makedirs (build_dir c) s = Inr s1" and
    2: "makedirs (artifact_dir c) s1 = Inr s2" and
    3: "write_file (path_join (build_dir c) ''setup-build-env.sh'') (env_setup_script c) s2
          = Inr s3" and
    4: "for_each (\<lambda>fname. copy_if_exists e (path_join (source_dir c) fname)
                    (path_join (build_dir c) fname)) support_files s3 = Inr s4" and
    5: "for_each (\<lambda>fname. copy_if_exists e
                 (path_join (path_join (getcwd e) ''.circleci'') fname)
                 (path_join (build_dir c) fname))
       [''extract_metadata_from_notebook.py''] s4 = Inr s'"
    unfolding setup_build_env_def by (blast dest: bind_result_Inr)
  have a: "adds_dirs s s2"
    using makedirs_adds_dirs[OF 1] makedirs_adds_dirs[OF 2] by (rule adds_dirs_trans)
  have b: "s3 = apply_writes s2
      [(path_join (build_dir c) ''setup-build-env.sh'', env_setup_script c)]"
    using write_file_result[OF 3] by simp
  have c: "s4 = apply_writes s3
      (concat (map (\<lambda>fname. source_copy e (path_join (source_dir c) fname)
                      (path_join (build_dir c) fname)) support_files))"
    by (rule for_each_writes[OF _ 4]) (rule copy_if_exists_writes)
  have d: "s' = apply_writes s4 (concat (map (\<lambda>fname. source_copy e
                 (path_join (path_join (getcwd e) ''.circleci'') fname)
                 (path_join (build_dir c) fname)) [''extract_metadata_from_notebook.py'']))"
    by (rule for_each_writes[OF _ 5]) (rule copy_if_exists_writes)
  have "s' = apply_writes s2 (setup_writes e c)"
    unfolding setup_writes_def apply_writes_append
    using b c d by simp
  with a show ?thesis by blast
qed

lemma add_notebook_writes:
  assumes "add_notebook e coll c nb acc = Inr acc'"
  shows "fst acc' = fst acc @ [script_path c nb]"
    and "snd acc' = apply_writes (snd acc) (notebook_writes e coll c nb)"
    and "\<exists>content. resolve e (filepath nb) = Some (File content)"
proof -
  from assms obtain s1 s2 where
    1: "create_build_script nb [coll, cat_name c] (build_dir c) (artifact_dir c) (snd acc)
          = Inr s1"
    and 2: "inject_notebook e nb (build_dir c) s1 = Inr s2"
    and 3: "acc' = (fst acc @ [path_join (build_dir c) (filename nb @ ''-builder.sh'')], s2)"
    unfolding add_notebook_def by (auto dest!: bind_result_Inr)
  from 1 have s1: "s1 = apply_writes (snd acc) [(script_path c nb, script_text coll c nb)]"
    by (auto simp: create_build_script_def Let_def script_path_def script_text_def
        dest!: write_file_result)
  from inject_notebook_writes[OF 2]
  have s2: "s2 = apply_writes s1
      (source_copy e (filepath nb) (path_join (build_dir c) (filename nb)))"
    and r: "\<exists>content. resolve e (filepath nb) = Some (File content)" by simp_all
  show "fst acc' = fst acc @ [script_path c nb]" using 3 by (simp add: script_path_def)
  show "snd acc' = apply_writes (snd acc) (notebook_writes e coll c nb)"
    unfolding notebook_writes_def apply_writes_append using 3 s1 s2 by simp
  show "\<exists>content. resolve e (filepath nb) = Some (File content)" by (rule r)
qed

lemma add_notebooks_writes:
  assumes "for_each (add_notebook e coll c) nbs acc = Inr acc'"
  shows "fst acc' = fst acc @ map (script_path c) nbs
     \<and> snd acc' = apply_writes (snd acc) (concat (map (notebook_writes e coll c) nbs))
     \<and> (\<forall>nb \<in> set nbs. \<exists>content. resolve e (filepath nb) = Some (File content))"
  using assms
proof (induction nbs arbitrary: acc)
  case Nil
  then show ?case by simp
next
  case (Cons nb nbs)
  from Cons.prems obtain acc1 where 1: "add_notebook e coll c nb acc = Inr acc1"
    and 2: "for_each (add_notebook e coll c) nbs acc1 = Inr acc'"
    by (auto dest: bind_result_Inr)
  from add_notebook_writes[OF 1] Cons.IH[OF 2] show ?case by simp
qed

lemma build_job_writes:
  assumes "build_job e coll c s = Inr (job, s')"
  shows "job = BuildJob c (map (script_path c) (notebooks c))"
    and "\<exists>s2. adds_dirs s s2 \<and> s' = apply_writes s2 (planned_writes e coll c)"
    and "\<forall>nb \<in> set (notebooks c). \<exists>content. resolve e (filepath nb) = Some (File content)"
proof -
  from assms obtain s1 acc where
    1: "setup_build_env e c s = Inr s1" and
    2: "for_each (add_notebook e coll c) (notebooks c) ([], s1) = Inr acc" and
    3: "job = BuildJob c (fst acc)" and 4: "s' = snd acc"
    unfolding build_job_def by (auto dest!: bind_result_Inr)
  from setup_build_env_writes[OF 1] obtain s2 where
    a: "adds_dirs s s2" and b: "s1 = apply_writes s2 (setup_writes e c)" by blast
  from add_notebooks_writes[OF 2]
  have f: "fst acc = map (script_path c) (notebooks c)"
    and g: "snd acc = apply_writes s1 (concat (map (notebook_writes e coll c) (notebooks c)))"
    and h: "\<forall>nb \<in> set (notebooks c). \<exists>content. resolve e (filepath nb) = Some (File content)"
    by simp_all
  show "job = BuildJob c (map (script_path c) (notebooks c))" using 3 f by simp
  show "\<exists>s2. adds_dirs s s2 \<and> s' = apply_writes s2 (planned_writes e coll c)"
    using a b g 4 by (auto simp: planned_writes_def)
  show "\<forall>nb \<in> set (notebooks c). \<exists>content. resolve e (filepath nb) = Some (File content)"
    by (rule h)
qed

text \<open>A path holds a regular file; files stay files through a build job that returns.\<close>

definition is_file :: "fstore \<Rightarrow> string \<Rightarrow> bool" where
  "is_file s p = (case s p of Some (FileObj content) \<Rightarrow> True | Some DirObj \<Rightarrow> False | None \<Rightarrow> False)"

lemma is_file_adds_dirs:
  assumes "adds_dirs s s'" and "is_file s p"
  shows "is_file s' p"
proof -
  from assms(2) have "s p \<noteq> None" by (auto simp: is_file_def split: option.splits)
  moreover from assms(1) have "s' p = s p \<or> s p = None" by (auto simp: adds_dirs_def)
  ultimately have "s' p = s p" by auto
  with assms(2) show ?thesis by (simp add: is_file_def)
qed

lemma is_file_apply_writes:
  "is_file s p \<or> p \<in> fst ` set W \<Longrightarrow> is_file (apply_writes s W) p"
proof (induction W rule: rev_induct)
  case Nil
  then show ?case by simp
next
  case (snoc kv W)
  obtain k v where kv: "kv = (k, v)" by (cases kv)
  show ?case
  proof (cases "p = k")
    case True
    then show ?thesis by (simp add: kv is_file_def)
  next
    case False
    with snoc.prems kv have "is_file s p \<or> p \<in> fst ` set W" by auto
    then have "is_file (apply_writes s W) p" by (rule snoc.IH)
    with False show ?thesis by (simp add: kv is_file_def)
  qed
qed

lemma script_path_planned:
  assumes "nb \<in> set (notebooks c)"
  shows "script_path c nb \<in> fst ` set (planned_writes e coll c)"
proof -
  have "(script_path c nb, script_text coll c nb) \<in> set (notebook_writes e coll c nb)"
    by (simp add: notebook_writes_def)
  with assms have "(script_path c nb, script_text coll c nb) \<in> set (planned_writes e coll c)"
    unfolding planned_writes_def by auto
  then show ?thesis by (rule image_eqI[rotated]) simp
qed

lemma build_job_files:
  assumes "build_job e coll c s = Inr (job, s')"
  shows "is_file s p \<Longrightarrow> is_file s' p"
    and "p \<in> set (scripts job) \<Longrightarrow> is_file s' p"
proof -
  from build_job_writes(2)[OF assms] obtain s2 where
    a: "adds_dirs s s2" and b: "s' = apply_writes s2 (planned_writes e coll c)" by blast
  show "is_file s' p" if "is_file s p"
    unfolding b using is_file_adds_dirs[OF a that] by (simp add: is_file_apply_writes)
  show "is_file s' p" if "p \<in> set (scripts job)"
  proof -
    from that build_job_writes(1)[OF assms]
    obtain nb where "nb \<in> set (notebooks c)" and "p = script_path c nb" by auto
    then have "p \<in> fst ` set (planned_writes e coll c)" by (simp add: script_path_planned)
    then show ?thesis unfolding b by (simp add: is_file_apply_writes)
  qed
qed

section \<open>Claims about the driver\<close>

text \<open>The polling loop ends exactly for a process that exits.\<close>

lemma wait_for_exit_exits: "wait_for_exit (Exits n rc) k = Some rc"
proof (induction "n - k" arbitrary: k)
  case 0
  then show ?case by (subst wait_for_exit.simps) simp
next
  case (Suc m)
  then have "wait_for_exit (Exits n rc) (Suc k) = Some rc" by simp
  moreover from Suc have "k < n" by simp
  ultimately show ?case by (subst wait_for_exit.simps) simp
qed

lemma wait_for_exit_never: "wait_for_exit Never_exits k = None"
proof -
  have "p \<noteq> Never_exits" if "wait_for_exit p k = Some rc" for p k rc
    using that
    by (rule wait_for_exit.raw_induct[where P="\<lambda>p k y. p \<noteq> Never_exits", rotated])
      (auto split: option.splits)
  then show ?thesis by (cases "wait_for_exit Never_exits k") auto
qed

text \<open>
  What \<^verbatim>\<open>build_artifact\<close> does for the two kinds of process. These two equations
  are also the ones used to evaluate an example run, since for a process that
  never exits the loop itself cannot be run to its end.
\<close>

lemma build_artifact_exits:
  "build_artifact (Exits n rc) =
     Some (if 0 < rc then Inl (BuildError (''Process Exit Code['' @ str_int rc @ '']''))
           else Inr ())"
  by (simp add: build_artifact_def wait_for_exit_exits)

lemma build_artifact_never: "build_artifact Never_exits = None"
  by (simp add: build_artifact_def wait_for_exit_never)

declare build_artifact_exits [code] build_artifact_never [code]

text \<open>
  Claim C5. When the process of a build script exits with return code \<open>rc\<close>,
  \<^verbatim>\<open>build_artifact\<close> returns; it raises \<^verbatim>\<open>BuildError\<close> with the code in its message
  when \<open>rc\<close> is strictly positive, and raises nothing when \<open>rc\<close> is zero or negative
  (a process ended by a signal).
\<close>

theorem build_artifact_classifies_exit_status:
  "build_artifact (Exits n rc) =
     Some (if 0 < rc then Inl (BuildError (''Process Exit Code['' @ str_int rc @ '']''))
           else Inr ())"
  by (simp add: build_artifact_def wait_for_exit_exits)

text \<open>Three sample exit codes.\<close>

lemma build_artifact_examples:
  "build_artifact (Exits 4 1) = Some (Inl (BuildError ''Process Exit Code[1]''))"
  "build_artifact (Exits 4 0) = Some (Inr ())"
  "build_artifact (Exits 4 (- 9)) = Some (Inr ())"
  by code_simp+

text \<open>The commands of the processes started, in order, and the skip test of line 189.\<close>

fun popen_commands :: "event list \<Rightarrow> string list" where
  "popen_commands [] = []"
| "popen_commands (Popen c # es) = c # popen_commands es"
| "popen_commands (LogError m # es) = popen_commands es"
| "popen_commands (SetTrace # es) = popen_commands es"

lemma popen_commands_append [simp]:
  "popen_commands (xs @ ys) = popen_commands xs @ popen_commands ys"
  by (induction xs rule: popen_commands.induct) auto

definition skipped :: "string \<Rightarrow> bool" where
  "skipped script = (basename script \<in> set pass_names)"

lemma run_script_halted [simp]: "halted rs \<Longrightarrow> run_script world rs script = rs"
  by (simp add: run_script_def)

lemma run_script_skipped [simp]: "skipped script \<Longrightarrow> run_script world rs script = rs"
  by (simp add: run_script_def skipped_def Let_def)

lemma run_script_runs:
  assumes "\<not> halted rs" and "\<not> skipped script"
  shows "popen_commands (events (run_script world rs script))
           = popen_commands (events rs) @ [''bash '' @ script]"
  using assms
  by (simp add: run_script_def skipped_def Let_def
      split: option.splits sum.splits reply.splits)

lemma run_script_fs [simp]: "fs (run_script world rs script) = fs rs"
  by (simp add: run_script_def Let_def split: option.splits sum.splits reply.splits)

lemma run_scripts_halted [simp]: "halted rs \<Longrightarrow> foldl (run_script world) rs ss = rs"
  by (induction ss) simp_all

lemma run_scripts_fs [simp]: "fs (foldl (run_script world) rs ss) = fs rs"
  by (induction ss arbitrary: rs) simp_all

text \<open>
  The loop over the scripts of one job: the processes started are an initial part
  of the commands of the scripts that are not skipped, and all of them when the
  loop ends with the run still going.
\<close>

lemma run_scripts_started:
  "\<exists>rest. popen_commands (events rs)
            @ map (\<lambda>s. ''bash '' @ s) (filter (\<lambda>s. \<not> skipped s) ss)
          = popen_commands (events (foldl (run_script world) rs ss)) @ rest
        \<and> (\<not> halted (foldl (run_script world) rs ss) \<longrightarrow> rest = [])"
proof (induction ss arbitrary: rs)
  case Nil
  show ?case by simp
next
  case (Cons s ss)
  show ?case
  proof (cases "halted rs")
    case True
    then show ?thesis by simp
  next
    case False
    show ?thesis
    proof (cases "skipped s")
      case True
      with Cons[of rs] show ?thesis by simp
    next
      case skip: False
      from run_script_runs[OF False skip, of world] Cons[of "run_script world rs s"] skip
      show ?thesis by simp
    qed
  qed
qed

text \<open>
  The generators unfolded: the one scan of \<^verbatim>\<open>build_collections\<close>, and the body of the
  loop of \<^verbatim>\<open>find_build_jobs\<close> over the categories of a collection.
\<close>

definition collection_scan :: "env \<Rightarrow> string \<Rightarrow> fstore \<Rightarrow> scan_state" where
  "collection_scan e name s =
     (case resolve e (path_join (getcwd e) name) of
        None \<Rightarrow> scan_start s
      | Some t \<Rightarrow> build_categories (getcwd e) (path_join (getcwd e) name) t (scan_start s))"

definition build_category ::
  "env \<Rightarrow> string \<Rightarrow> (BuildJob \<Rightarrow> run_state \<Rightarrow> run_state) \<Rightarrow> run_state \<Rightarrow> Category \<Rightarrow> run_state" where
  "build_category e collection_name body rs1 category =
     (if halted rs1 then rs1
      else (case build_job e collection_name category (fs rs1) of
              Inl err \<Rightarrow> rs1\<lparr>fs := snd err, uncaught := Some (fst err)\<rparr>
            | Inr r \<Rightarrow> body (fst r) (rs1\<lparr>fs := snd r\<rparr>)))"

lemma build_collections_unfold:
  "build_collections e body rs =
     (if halted rs then rs
      else (case raised (collection_scan e ''jdat_notebooks'' (fs rs)) of
              Some err \<Rightarrow> rs\<lparr>fs := store (collection_scan e ''jdat_notebooks'' (fs rs)),
                              uncaught := Some err\<rparr>
            | None \<Rightarrow> body (Collection ''jdat_notebooks''
                               (map fst (yielded (collection_scan e ''jdat_notebooks'' (fs rs)))))
                        (rs\<lparr>fs := store (collection_scan e ''jdat_notebooks'' (fs rs))\<rparr>)))"
  by (simp add: build_collections_def collection_scan_def scan_start_def Let_def
      split: option.splits)

lemma find_build_jobs_unfold:
  "find_build_jobs e body rs =
     (if halted rs then rs
      else (case raised (collection_scan e ''jdat_notebooks'' (fs rs)) of
              Some err \<Rightarrow> rs\<lparr>fs := store (collection_scan e ''jdat_notebooks'' (fs rs)),
                              uncaught := Some err\<rparr>
            | None \<Rightarrow> foldl (build_category e ''jdat_notebooks'' body)
                        (rs\<lparr>fs := store (collection_scan e ''jdat_notebooks'' (fs rs))\<rparr>)
                        (map fst (yielded (collection_scan e ''jdat_notebooks'' (fs rs))))))"
proof -
  have *: "(\<lambda>rs1 category.
           if halted rs1 then rs1
           else (case build_job e (coll_name collection) category (fs rs1) of
                   Inl err \<Rightarrow> rs1\<lparr>fs := snd err, uncaught := Some (fst err)\<rparr>
                 | Inr r \<Rightarrow> body (fst r) (rs1\<lparr>fs := snd r\<rparr>)))
       = build_category e (coll_name collection) body" for collection
    by (intro ext) (simp add: build_category_def)
  show ?thesis
    unfolding find_build_jobs_def * build_collections_unfold
    by (simp split: option.splits)
qed

lemma main_scan_error:
  assumes "\<not> halted rs" and "raised (collection_scan e ''jdat_notebooks'' (fs rs)) = Some err"
  shows "main e world rs = rs\<lparr>fs := store (collection_scan e ''jdat_notebooks'' (fs rs)),
                              uncaught := Some err\<rparr>"
  using assms by (simp add: main_def find_build_jobs_unfold)

definition run_start :: "fstore \<Rightarrow> run_state" where
  "run_start s = \<lparr>fs = s, events = [], uncaught = None, hung = False\<rparr>"

text \<open>
  The loop of \<^verbatim>\<open>main\<close> over the jobs, one category after the other: the scripts of
  a category are those of line 164, one for each notebook.
\<close>

definition job_scripts :: "Category \<Rightarrow> string list" where
  "job_scripts c =
     map (\<lambda>nb. path_join (build_dir c) (filename nb @ ''-builder.sh'')) (notebooks c)"

definition run_job :: "world \<Rightarrow> BuildJob \<Rightarrow> run_state \<Rightarrow> run_state" where
  "run_job world job rs0 = foldl (run_script world) rs0 (scripts job)"

lemma main_run_job: "main e world rs = find_build_jobs e (run_job world) rs"
proof -
  have "(\<lambda>build_job rs0. foldl (run_script world) rs0 (scripts build_job)) = run_job world"
    by (intro ext) (simp add: run_job_def)
  then show ?thesis by (simp add: main_def)
qed

lemma build_category_halted [simp]: "halted rs \<Longrightarrow> build_category e n body rs c = rs"
  by (simp add: build_category_def)

lemma build_categories_halted [simp]:
  "halted rs \<Longrightarrow> foldl (build_category e n body) rs cs = rs"
  by (induction cs) simp_all

lemma build_category_cases:
  fixes rs :: run_state
  assumes "\<not> halted rs"
  obtains (raises) err where "build_job e n c (fs rs) = Inl err"
      and "build_category e n (run_job world) rs c = rs\<lparr>fs := snd err, uncaught := Some (fst err)\<rparr>"
    | (returns) job s' where "build_job e n c (fs rs) = Inr (job, s')"
      and "scripts job = job_scripts c"
      and "build_category e n (run_job world) rs c
             = foldl (run_script world) (rs\<lparr>fs := s'\<rparr>) (job_scripts c)"
proof (cases "build_job e n c (fs rs)")
  case (Inl err)
  with assms raises show ?thesis by (simp add: build_category_def)
next
  case (Inr r)
  obtain job s' where r: "r = (job, s')" by (cases r)
  from build_job_writes(1)[OF Inr[unfolded r]]
  have "scripts job = job_scripts c" by (simp add: job_scripts_def script_path_def)
  with assms Inr r returns show ?thesis by (simp add: build_category_def run_job_def)
qed

lemma build_categories_started:
  fixes rs :: run_state
  shows "\<exists>rest. popen_commands (events rs)
            @ map (\<lambda>s. ''bash '' @ s) (filter (\<lambda>s. \<not> skipped s) (concat (map job_scripts cs)))
          = popen_commands (events (foldl (build_category e n (run_job world)) rs cs)) @ rest
        \<and> (\<not> halted (foldl (build_category e n (run_job world)) rs cs) \<longrightarrow> rest = [])"
proof (induction cs arbitrary: rs)
  case Nil
  show ?case by simp
next
  case (Cons c cs)
  let ?step = "build_category e n (run_job world)"
  show ?case
  proof (cases "halted rs")
    case True
    then show ?thesis by simp
  next
    case False
    then show ?thesis
    proof (cases rule: build_category_cases[of rs e n c world])
      case (raises err)
      then have "halted (?step rs c)" and "events (?step rs c) = events rs"
        by (simp_all add: halted_def)
      then show ?thesis by simp
    next
      case (returns job s')
      have ev: "events (rs\<lparr>fs := s'\<rparr>) = events rs" by simp
      from run_scripts_started[of "rs\<lparr>fs := s'\<rparr>" "job_scripts c" world]
      obtain r1 where 1: "popen_commands (events rs)
            @ map (\<lambda>s. ''bash '' @ s) (filter (\<lambda>s. \<not> skipped s) (job_scripts c))
          = popen_commands (events (?step rs c)) @ r1"
        and 2: "\<not> halted (?step rs c) \<longrightarrow> r1 = []"
        unfolding returns(3) ev by blast
      let ?more = "map (\<lambda>s. ''bash '' @ s)
                     (filter (\<lambda>s. \<not> skipped s) (concat (map job_scripts cs)))"
      show ?thesis
      proof (cases "halted (?step rs c)")
        case True
        with 1 show ?thesis by (intro exI[of _ "r1 @ ?more"]) simp
      next
        case False
        with 2 have r1: "r1 = []" by simp
        from Cons[of "?step rs c"] obtain r2 where
          3: "popen_commands (events (?step rs c)) @ ?more
                = popen_commands (events (foldl ?step (?step rs c) cs)) @ r2"
          and 4: "\<not> halted (foldl ?step (?step rs c) cs) \<longrightarrow> r2 = []" by blast
        have "popen_commands (events rs)
              @ map (\<lambda>s. ''bash '' @ s)
                  (filter (\<lambda>s. \<not> skipped s) (concat (map job_scripts (c # cs))))
            = (popen_commands (events rs)
                @ map (\<lambda>s. ''bash '' @ s) (filter (\<lambda>s. \<not> skipped s) (job_scripts c)))
              @ ?more" by simp
        also have "\<dots> = popen_commands (events (?step rs c)) @ ?more"
          unfolding 1 r1 by simp
        also note 3
        finally show ?thesis using 4 by (intro exI[of _ r2]) simp
      qed
    qed
  qed
qed

lemma build_categories_files:
  fixes rs :: run_state
  assumes "\<not> halted (foldl (build_category e n (run_job world)) rs cs)"
  shows "(is_file (fs rs) p \<or> p \<in> set (concat (map job_scripts cs)))
     \<longrightarrow> is_file (fs (foldl (build_category e n (run_job world)) rs cs)) p"
  using assms
proof (induction cs arbitrary: rs)
  case Nil
  show ?case by simp
next
  case (Cons c cs)
  let ?step = "build_category e n (run_job world)"
  from Cons.prems have going: "\<not> halted (foldl ?step (?step rs c) cs)" by simp
  have step: "\<not> halted (?step rs c)"
  proof
    assume "halted (?step rs c)"
    then have "foldl ?step (?step rs c) cs = ?step rs c" by simp
    with going \<open>halted (?step rs c)\<close> show False by simp
  qed
  have start: "\<not> halted rs"
  proof
    assume "halted rs"
    then have "?step rs c = rs" by simp
    with step \<open>halted rs\<close> show False by simp
  qed
  from start have "(is_file (fs rs) p \<or> p \<in> set (job_scripts c)) \<longrightarrow> is_file (fs (?step rs c)) p"
  proof (cases rule: build_category_cases[of rs e n c world])
    case (raises err)
    with step show ?thesis by (simp add: halted_def)
  next
    case (returns job s')
    from build_job_files[OF returns(1), of p] returns(2,3) show ?thesis by auto
  qed
  with Cons.IH[OF going] show ?case by auto
qed

text \<open>Example runs: three worlds and four working directories.\<close>

definition exits_with :: "int \<Rightarrow> world" where
  "exits_with rc = \<lparr>process = (\<lambda>command. Exits 2 rc), debugger = (\<lambda>script. Resumes)\<rparr>"

definition fails_and_quits :: world where
  "fails_and_quits = \<lparr>process = (\<lambda>command. Exits 2 1), debugger = (\<lambda>script. Quits)\<rparr>"

definition never_exits :: world where
  "never_exits = \<lparr>process = (\<lambda>command. Never_exits), debugger = (\<lambda>script. Resumes)\<rparr>"

definition env_grouped :: env where
  "env_grouped = \<lparr>getcwd = ''/w'', cwd_tree = Dir [(''jdat_notebooks'', grouped_tree)]\<rparr>"

definition env_missing :: env where
  "env_missing = \<lparr>getcwd = ''/w'', cwd_tree =
     Dir [(''jdat_notebooks'', Dir [(''D'', Dir [(''n.ipynb'', File ''x'')])])]\<rparr>"

definition env_skip :: env where
  "env_skip = \<lparr>getcwd = ''/w'', cwd_tree =
     Dir [(''jdat_notebooks'',
           Dir [(''C'', Dir [(''preimaging_01_mirage.ipynb'', File ''x''),
                             (''other.ipynb'', File ''y''),
                             (''requirements.txt'', File ''numpy'')])]),
          (''.circleci'', Dir [(''extract_metadata_from_notebook.py'', File ''py'')])]\<rparr>"

definition env_ab :: env where
  "env_ab = \<lparr>getcwd = ''/w'', cwd_tree =
     Dir [(''jdat_notebooks'',
           Dir [(''C'', Dir [(''a.ipynb'', File ''x''),
                             (''b.ipynb'', File ''y''),
                             (''requirements.txt'', File ''numpy'')])])]\<rparr>"

text \<open>The scripts of all categories that the scan of a run yields, in order.\<close>

definition category_scripts :: "env \<Rightarrow> fstore \<Rightarrow> string list" where
  "category_scripts e s =
     concat (map job_scripts (map fst (yielded (collection_scan e ''jdat_notebooks'' s))))"







text \<open>
  Claim C3 at the directory \<^verbatim>\<open>jdat_notebooks\<close>, which holds no notebook and whose
  subdirectory \<^verbatim>\<open>A\<close> holds the notebook directory \<^verbatim>\<open>B\<close>: the scan yields the
  category of \<^verbatim>\<open>B\<close> twice, once from the recursive call on \<^verbatim>\<open>A\<close> and once when the
  walk itself reaches \<^verbatim>\<open>A\<close>; the second \<^verbatim>\<open>setup_build_env\<close> for \<^verbatim>\<open>B\<close> then finds
  the build directory in place and the run ends with \<^verbatim>\<open>FileExistsError\<close>.
\<close>

theorem grouped_category_yielded_twice:
  "map (\<lambda>h. (cat_name (fst h), source_dir (fst h)))
     (yielded (build_categories ''/w'' ''/w/jdat_notebooks'' grouped_tree (scan_start Map.empty)))
     = [(''B'', ''/w/jdat_notebooks/A/B''), (''B'', ''/w/jdat_notebooks/A/B'')]
   \<and> uncaught (program env_grouped (exits_with 0) Map.empty)
       = Some (FileExistsError ''/tmp/nbcollection-ci-build-base-dir/B'')"
  by code_simp

section \<open>Claims about collections and artifact paths\<close>

text \<open>A working directory with a second top-level directory of notebooks.\<close>

definition env_two :: env where
  "env_two = \<lparr>getcwd = ''/w'', cwd_tree =
     Dir [(''other_notebooks'', Dir [(''X'', nb_dir)]),
          (''jdat_notebooks'', Dir [(''B'', nb_dir)])]\<rparr>"

text \<open>
  Claim C10. \<^verbatim>\<open>build_collections\<close> runs the body of its consumer at most once, on
  the one collection named \<^verbatim>\<open>jdat_notebooks\<close>, whose categories are those of the scan
  rooted at the directory \<^verbatim>\<open>jdat_notebooks\<close> under the working directory; and
  \<^verbatim>\<open>find_build_jobs\<close> builds every category with that collection name. Nothing
  else of the working directory is looked at: the collection is fixed in the code.
\<close>

theorem one_hard_coded_collection:
  "build_collections e body rs =
     (if halted rs then rs
      else (case raised (collection_scan e ''jdat_notebooks'' (fs rs)) of
              Some err \<Rightarrow> rs\<lparr>fs := store (collection_scan e ''jdat_notebooks'' (fs rs)),
                              uncaught := Some err\<rparr>
            | None \<Rightarrow> body (Collection ''jdat_notebooks''
                               (map fst (yielded (collection_scan e ''jdat_notebooks'' (fs rs)))))
                        (rs\<lparr>fs := store (collection_scan e ''jdat_notebooks'' (fs rs))\<rparr>)))
   \<and> find_build_jobs e job_body rs =
     (if halted rs then rs
      else (case raised (collection_scan e ''jdat_notebooks'' (fs rs)) of
              Some err \<Rightarrow> rs\<lparr>fs := store (collection_scan e ''jdat_notebooks'' (fs rs)),
                              uncaught := Some err\<rparr>
            | None \<Rightarrow> foldl (build_category e ''jdat_notebooks'' job_body)
                        (rs\<lparr>fs := store (collection_scan e ''jdat_notebooks'' (fs rs))\<rparr>)
                        (map fst (yielded (collection_scan e ''jdat_notebooks'' (fs rs))))))
   \<and> collection_scan e ''jdat_notebooks'' s =
       (case resolve e (path_join (getcwd e) ''jdat_notebooks'') of
          None \<Rightarrow> scan_start s
        | Some t \<Rightarrow> build_categories (getcwd e) (path_join (getcwd e) ''jdat_notebooks'') t
                      (scan_start s))"
  using build_collections_unfold[of e body rs] find_build_jobs_unfold[of e job_body rs]
  by (simp add: collection_scan_def)

text \<open>
  The theorem at the working directory with two top-level directories, with a
  consumer that notes the name of every collection it is given.
\<close>

definition note_collection :: "Collection \<Rightarrow> run_state \<Rightarrow> run_state" where
  "note_collection collection rs =
     rs\<lparr>events := events rs @ [LogError (coll_name collection)]\<rparr>"

theorem one_hard_coded_collection_witness:
  "events (build_collections env_two note_collection (run_start Map.empty))
     = [LogError ''jdat_notebooks'']
   \<and> map cat_name (map fst (yielded (collection_scan env_two ''jdat_notebooks'' Map.empty)))
     = [''B'']"
proof -
  have 1: "\<not> halted (run_start Map.empty)" by (simp add: run_start_def halted_def)
  have 2: "raised (collection_scan env_two ''jdat_notebooks'' (fs (run_start Map.empty))) = None"
    by code_simp
  have 3: "map cat_name (map fst (yielded (collection_scan env_two ''jdat_notebooks'' Map.empty)))
     = [''B'']" by code_simp
  from one_hard_coded_collection[of env_two note_collection "run_start Map.empty"]
  have "build_collections env_two note_collection (run_start Map.empty)
      = note_collection (Collection ''jdat_notebooks''
           (map fst (yielded (collection_scan env_two ''jdat_notebooks''
              (fs (run_start Map.empty))))))
          ((run_start Map.empty)\<lparr>fs := store (collection_scan env_two ''jdat_notebooks''
              (fs (run_start Map.empty)))\<rparr>)"
    using 1 2 by simp
  then have "events (build_collections env_two note_collection (run_start Map.empty))
     = [LogError ''jdat_notebooks'']"
    by (simp add: note_collection_def run_start_def)
  with 3 show ?thesis by simp
qed

text \<open>The second top-level directory is not scanned and none of its scripts is run.\<close>

lemma other_top_level_directory_ignored:
  "map cat_name (map fst (yielded (collection_scan env_two ''jdat_notebooks'' Map.empty))) = [''B'']
   \<and> popen_commands (events (program env_two (exits_with 0) Map.empty))
       = [''bash /tmp/nbcollection-ci-build-base-dir/B/n.ipynb-builder.sh'']"
  by code_simp

text \<open>Splitting at a separator that neither first part contains is unique.\<close>

lemma sep_split_unique:
  "c \<notin> set xs \<Longrightarrow> c \<notin> set xs' \<Longrightarrow> xs @ c # ys = xs' @ c # ys' \<Longrightarrow> xs = xs' \<and> ys = ys'"
proof (induction xs arbitrary: xs')
  case Nil
  then show ?case by (cases xs') auto
next
  case (Cons x xs)
  then show ?case by (cases xs') auto
qed

lemma endswith_slash: "endswith a ''/'' = (a \<noteq> [] \<and> last a = CHR ''/'')"
  by (cases a rule: rev_cases) (simp_all add: endswith_def)

lemma startswith_slash: "startswith b ''/'' = (b \<noteq> [] \<and> hd b = CHR ''/'')"
  by (cases b) (simp_all add: startswith_def)

lemma path_join_plain:
  "a \<noteq> [] \<Longrightarrow> last a \<noteq> CHR ''/'' \<Longrightarrow> CHR ''/'' \<notin> set b \<Longrightarrow> path_join a b = a @ ''/'' @ b"
  by (cases b) (auto simp: path_join_def startswith_slash endswith_slash)

lemma yielded_dirs:
  assumes "c \<in> fst ` set (yielded (build_categories cwd sp t (scan_start s)))"
  shows "build_dir c = path_join BUILD_BASE_DIR (cat_name c)"
    and "artifact_dir c = path_join ARTIFACT_DEST_DIR (cat_name c)"
proof -
  have "\<forall>h \<in> set (yielded (scan_start s)). handed_over cwd sp t h"
    by (simp add: scan_start_def)
  then have "\<forall>h \<in> set (yielded (build_categories cwd sp t (scan_start s))).
      handed_over cwd sp t h" by (rule yielded_sound)
  with assms obtain snap where "handed_over cwd sp t (c, snap)" by auto
  then obtain w d where "c = category_of cwd (fst w) d"
    unfolding handed_over_def by auto
  then show "build_dir c = path_join BUILD_BASE_DIR (cat_name c)"
    and "artifact_dir c = path_join ARTIFACT_DEST_DIR (cat_name c)"
    by (simp_all add: category_of_def)
qed

text \<open>
  The path of the HTML report as the specification words it: artifact root,
  collection name, category name, notebook file name.
\<close>

definition claimed_html_path :: "string \<Rightarrow> string \<Rightarrow> string \<Rightarrow> string" where
  "claimed_html_path collection_name category_name fname =
     ARTIFACT_DEST_DIR @ ''/'' @ collection_name @ ''/'' @ category_name @ ''/'' @ fname @ ''.html''"

definition two_categories :: node where
  "two_categories =
     Dir [(''catX'', Dir [(''nb1.ipynb'', File ''x''), (''requirements.txt'', File [])]),
          (''catY'', Dir [(''nb1.ipynb'', File ''y''), (''requirements.txt'', File [])])]"

lemma artifact_dir_plain:
  assumes "CHR ''/'' \<notin> set n"
  shows "path_join ARTIFACT_DEST_DIR n = ARTIFACT_DEST_DIR @ ''/'' @ n"
  by (rule path_join_plain) (simp_all add: ARTIFACT_DEST_DIR_def assms)


text \<open>The two categories of the example tree, which share a notebook file name.\<close>

definition cat_x :: Category where
  "cat_x = category_of ''/w'' ''/w/jdat_notebooks''
     (''catX'', Dir [(''nb1.ipynb'', File ''x''), (''requirements.txt'', File [])])"

definition cat_y :: Category where
  "cat_y = category_of ''/w'' ''/w/jdat_notebooks''
     (''catY'', Dir [(''nb1.ipynb'', File ''y''), (''requirements.txt'', File [])])"



end
